theory Spec2Isabelle
  imports Main
begin

section \<open>JavaScript numbers\<close>

text \<open>
  A JavaScript number is an IEEE 754 double. The numbers this program computes are
  non-negative integers and \<open>+Infinity\<close>: \<open>parseInt\<close> of a string of digits, products
  with positive integer literals, sums, and \<open>Math.floor\<close> of a quotient by a positive
  integer literal. \<open>Finite n\<close> is the double whose value is the integer \<open>n\<close>.
  Every operation computes the exact result and rounds it to the nearest double, ties to
  the even significand; a result of magnitude \<open>2 ^ 1024\<close> or more is \<open>+Infinity\<close>.
\<close>

datatype js_number = Finite int | Infinity

text \<open>The number of binary digits of a positive integer.\<close>

function bit_length :: "int \<Rightarrow> nat" where
  "bit_length n = (if n \<le> 0 then 0 else Suc (bit_length (n div 2)))"
  by pat_completeness auto
termination
  by (relation "measure nat") auto

declare bit_length.simps [simp del]

text \<open>
  The nearest integer with at most 53 significant binary digits, ties to even: below
  \<open>2 ^ 53\<close> every integer is a double; from there on the last \<open>e\<close> binary digits are
  rounded away.
\<close>

definition round_to_double :: "int \<Rightarrow> int" where
  "round_to_double n =
     (if n < 2 ^ 53 then n
      else
        let e = bit_length n - 53;
            q = n div 2 ^ e;
            r = n mod 2 ^ e;
            half = 2 ^ (e - 1)
        in if r < half then q * 2 ^ e
           else if half < r then (q + 1) * 2 ^ e
           else if even q then q * 2 ^ e
           else (q + 1) * 2 ^ e)"

text \<open>The double for an exact non-negative integer result.\<close>

definition to_number :: "int \<Rightarrow> js_number" where
  "to_number n =
     (let m = round_to_double n in if m < 2 ^ 1024 then Finite m else Infinity)"

text \<open>\<open>x + y\<close>.\<close>

fun js_add :: "js_number \<Rightarrow> js_number \<Rightarrow> js_number" where
  "js_add (Finite a) (Finite b) = to_number (a + b)"
| "js_add x y = Infinity"

text \<open>\<open>x * k\<close> for a positive integer literal \<open>k\<close>.\<close>

fun js_mul :: "js_number \<Rightarrow> int \<Rightarrow> js_number" where
  "js_mul (Finite a) k = to_number (a * k)"
| "js_mul Infinity k = Infinity"

text \<open>
  \<open>Math.floor(x / d)\<close> for a positive integer literal \<open>d\<close>: the quotient is rounded to
  a double first, then \<open>Math.floor\<close> is applied. With \<open>k\<close> the integer part of the
  exact quotient and \<open>b\<close> its number of binary digits: an exact quotient is rounded as an
  integer; a quotient with \<open>b \<le> 52\<close> has \<open>53 - b\<close> binary digits after the point and
  rounds up to \<open>k + 1\<close> exactly when it is within half a unit in the last place of it;
  a larger quotient is rounded to a multiple of \<open>2 ^ (b - 53)\<close>.
\<close>

fun js_floor_div :: "js_number \<Rightarrow> int \<Rightarrow> js_number" where
  "js_floor_div (Finite n) d =
     (let k = n div d;
          r = n mod d;
          b = bit_length k
      in if r = 0 then to_number k
         else if b \<le> 52 then Finite (if (d - r) * 2 ^ (54 - b) \<le> d then k + 1 else k)
         else
           (let m = d * 2 ^ (b - 53);
                q = n div m;
                r' = n mod m
            in if 2 * r' < m then Finite (q * 2 ^ (b - 53))
               else if m < 2 * r' then Finite ((q + 1) * 2 ^ (b - 53))
               else if even q then Finite (q * 2 ^ (b - 53))
               else Finite ((q + 1) * 2 ^ (b - 53))))"
| "js_floor_div Infinity d = Infinity"

section \<open>Duration parser (src/src/parseDuration.ts)\<close>

text \<open>
  A JavaScript string is a sequence of UTF-16 code units; a code unit is modelled by its
  number. \<open>utf16\<close> embeds an ASCII literal.
\<close>

type_synonym js_string = "nat list"

definition utf16 :: "string \<Rightarrow> js_string" where
  "utf16 s = map of_char s"

text \<open>The character classes \<open>\d\<close> and \<open>\s\<close> of an ECMAScript regular expression.\<close>

definition is_digit :: "nat \<Rightarrow> bool" where
  "is_digit c \<longleftrightarrow> 48 \<le> c \<and> c \<le> 57"

definition is_space :: "nat \<Rightarrow> bool" where
  "is_space c \<longleftrightarrow>
     (9 \<le> c \<and> c \<le> 13) \<or> c = 32 \<or> c = 160 \<or> c = 5760 \<or> (8192 \<le> c \<and> c \<le> 8202) \<or>
     c = 8232 \<or> c = 8233 \<or> c = 8239 \<or> c = 8287 \<or> c = 12288 \<or> c = 65279"

text \<open>
  Flag \<open>i\<close> without flag \<open>u\<close>: two code units match when their canonical forms agree.
  The canonical form of an ASCII letter is its upper case; a code unit from 128 on is never
  mapped into ASCII, so against the ASCII letters of the pattern it behaves as itself.
\<close>

definition canonicalize :: "nat \<Rightarrow> nat" where
  "canonicalize c = (if 97 \<le> c \<and> c \<le> 122 then c - 32 else c)"

definition toLowerCase :: "js_string \<Rightarrow> js_string" where
  "toLowerCase s = map (\<lambda>c. if 65 \<le> c \<and> c \<le> 90 then c + 32 else c) s"

text \<open>The alternatives of the second group, in the order of the source.\<close>

definition unit_alternatives :: "js_string list" where
  "unit_alternatives = map utf16
     [''mo'', ''month'', ''months'', ''w'', ''week'', ''weeks'', ''d'', ''day'', ''days'',
      ''h'', ''hour'', ''hours'', ''m'', ''min'', ''minute'', ''minutes'',
      ''s'', ''sec'', ''second'', ''seconds'']"

text \<open>Matching a literal at the start of the input; the result is the rest of the input.\<close>

fun match_literal :: "js_string \<Rightarrow> js_string \<Rightarrow> js_string option" where
  "match_literal [] s = Some s"
| "match_literal (p # ps) [] = None"
| "match_literal (p # ps) (c # cs) =
     (if canonicalize p = canonicalize c then match_literal ps cs else None)"

text \<open>An alternation takes the first alternative that matches: (matched text, rest).\<close>

fun match_alternation :: "js_string list \<Rightarrow> js_string \<Rightarrow> (js_string \<times> js_string) option" where
  "match_alternation [] s = None"
| "match_alternation (p # ps) s =
     (case match_literal p s of
        Some rest \<Rightarrow> Some (take (length p) s, rest)
      | None \<Rightarrow> match_alternation ps s)"

text \<open>
  \<open>\s*\<close> followed by the unit group, with backtracking: \<open>j\<close> code units of white space
  are consumed first, then fewer.
\<close>

fun try_spaces :: "nat \<Rightarrow> js_string \<Rightarrow> (js_string \<times> js_string) option" where
  "try_spaces 0 s = match_alternation unit_alternatives s"
| "try_spaces (Suc j) s =
     (case match_alternation unit_alternatives (drop (Suc j) s) of
        Some r \<Rightarrow> Some r
      | None \<Rightarrow> try_spaces j s)"

text \<open>
  \<open>(\d+)\<close> followed by the rest of the pattern, with backtracking: \<open>k\<close> digits are
  consumed first, then fewer, but at least one. The result is (group 1, group 2, rest).
\<close>

fun try_digits :: "nat \<Rightarrow> js_string \<Rightarrow> (js_string \<times> js_string \<times> js_string) option" where
  "try_digits 0 s = None"
| "try_digits (Suc k) s =
     (case try_spaces (length (takeWhile is_space (drop (Suc k) s))) (drop (Suc k) s) of
        Some (u, rest) \<Rightarrow> Some (take (Suc k) s, u, rest)
      | None \<Rightarrow> try_digits k s)"

definition match_here :: "js_string \<Rightarrow> (js_string \<times> js_string \<times> js_string) option" where
  "match_here s = try_digits (length (takeWhile is_digit s)) s"

text \<open>
  \<open>regex.exec(input)\<close> with flag \<open>g\<close>: the input is what follows \<open>lastIndex\<close>; the
  leftmost start position with a match wins, and the rest is what follows the new
  \<open>lastIndex\<close>.
\<close>

fun regex_exec :: "js_string \<Rightarrow> (js_string \<times> js_string \<times> js_string) option" where
  "regex_exec [] = None"
| "regex_exec (c # cs) =
     (case match_here (c # cs) of
        Some r \<Rightarrow> Some r
      | None \<Rightarrow> regex_exec cs)"

text \<open>
  \<open>parseInt(digits, 10)\<close> on a non-empty string of decimal digits: the double nearest
  to the integer the digits denote. (For more than 20 significant digits the language
  lets an implementation approximate the integer before rounding; no statement below
  depends on such an input.)
\<close>

definition parseInt :: "js_string \<Rightarrow> js_number" where
  "parseInt ds = to_number (foldl (\<lambda>a d. a * 10 + (int d - 48)) 0 ds)"

text \<open>
  The \<open>switch\<close> of the loop body: \<open>ms += value * ... * 1000\<close>, each product and the
  sum rounded in turn, from left to right; no case, no change.
\<close>

definition switch_unit :: "js_string \<Rightarrow> js_number \<Rightarrow> js_number \<Rightarrow> js_number" where
  "switch_unit unit v ms =
     (if unit = utf16 ''mo'' \<or> unit = utf16 ''month'' \<or> unit = utf16 ''months''
        then js_add ms (js_mul (js_mul (js_mul (js_mul (js_mul v 30) 24) 60) 60) 1000)
      else if unit = utf16 ''w'' \<or> unit = utf16 ''week'' \<or> unit = utf16 ''weeks''
        then js_add ms (js_mul (js_mul (js_mul (js_mul (js_mul v 7) 24) 60) 60) 1000)
      else if unit = utf16 ''d'' \<or> unit = utf16 ''day'' \<or> unit = utf16 ''days''
        then js_add ms (js_mul (js_mul (js_mul (js_mul v 24) 60) 60) 1000)
      else if unit = utf16 ''h'' \<or> unit = utf16 ''hour'' \<or> unit = utf16 ''hours''
        then js_add ms (js_mul (js_mul (js_mul v 60) 60) 1000)
      else if unit = utf16 ''m'' \<or> unit = utf16 ''min'' \<or> unit = utf16 ''minute''
              \<or> unit = utf16 ''minutes''
        then js_add ms (js_mul (js_mul v 60) 1000)
      else if unit = utf16 ''s'' \<or> unit = utf16 ''sec'' \<or> unit = utf16 ''second''
              \<or> unit = utf16 ''seconds''
        then js_add ms (js_mul v 1000)
      else ms)"

lemma match_literal_length:
  "match_literal p s = Some r \<Longrightarrow> length r + length p = length s"
  by (induction p s rule: match_literal.induct) (auto split: if_splits)

lemma match_alternation_length:
  "match_alternation ps s = Some (u, r) \<Longrightarrow> length r \<le> length s"
  by (induction ps) (auto split: option.splits dest: match_literal_length)

lemma try_spaces_length:
  "try_spaces j s = Some (u, r) \<Longrightarrow> length r \<le> length s"
proof (induction j)
  case 0
  then show ?case
    by (auto dest: match_alternation_length)
next
  case (Suc j)
  then show ?case
    by (auto split: option.splits dest!: match_alternation_length)
qed

lemma try_spaces_Nil: "try_spaces j [] = None"
  by (induction j) (simp_all add: unit_alternatives_def utf16_def)

lemma try_digits_length:
  "try_digits k s = Some (d, u, r) \<Longrightarrow> length r < length s"
proof (induction k)
  case 0
  then show ?case by simp
next
  case (Suc k)
  show ?case
  proof (cases "try_spaces (length (takeWhile is_space (drop (Suc k) s))) (drop (Suc k) s)")
    case None
    with Suc show ?thesis by simp
  next
    case (Some a)
    obtain u' r' where a: "a = (u', r')" by (cases a)
    from Suc.prems Some a have r: "r = r'" by simp
    from Some a have "length r' \<le> length (drop (Suc k) s)"
      by (auto dest: try_spaces_length)
    moreover have "s \<noteq> []"
    proof
      assume "s = []"
      with Some a show False
        by (simp add: try_spaces_Nil)
    qed
    ultimately show ?thesis using r by (cases s) auto
  qed
qed

lemma regex_exec_length:
  "regex_exec s = Some (d, u, r) \<Longrightarrow> length r < length s"
proof (induction s)
  case Nil
  then show ?case by simp
next
  case (Cons c cs)
  then show ?case
    by (auto simp: match_here_def split: option.splits dest: try_digits_length)
qed

text \<open>The \<open>while\<close> loop of \<open>parseDuration\<close>, with the accumulator \<open>ms\<close>.\<close>

function parseDuration_loop :: "js_string \<Rightarrow> js_number \<Rightarrow> js_number" where
  "parseDuration_loop input ms =
     (case regex_exec input of
        None \<Rightarrow> ms
      | Some (d, u, rest) \<Rightarrow>
          parseDuration_loop rest (switch_unit (toLowerCase u) (parseInt d) ms))"
  by pat_completeness auto
termination
  by (relation "measure (\<lambda>(input, ms). length input)") (auto dest: regex_exec_length)

declare parseDuration_loop.simps [simp del]

definition parseDuration :: "js_string \<Rightarrow> js_number" where
  "parseDuration input = parseDuration_loop input (Finite 0)"



subsection \<open>The duration of the specification\<close>

text \<open>
  The specification's data model: the ordered sequence of (quantity, unit) pairs found
  in a string, with the fixed conversion factors second = 1000 ms, minute = 60 s,
  hour = 3600 s, day = 86400 s, week = 7 d, month = 30 d, all summed. It is written
  here on its own, as a scan from left to right that does not use the functions above:
  a pair is a maximal run of decimal digits, any white space, and a unit token, which
  is recognised by its first letter in either case (\<open>mo\<close> for a month); where no pair
  starts, the scan moves on by one code unit.
\<close>

datatype time_unit = Second | Minute | Hour | Day | Week | Month

definition second_ms :: int where
  "second_ms = 1000"

definition day_ms :: int where
  "day_ms = 86400 * second_ms"

fun factor_ms :: "time_unit \<Rightarrow> int" where
  "factor_ms Second = second_ms"
| "factor_ms Minute = 60 * second_ms"
| "factor_ms Hour = 3600 * second_ms"
| "factor_ms Day = day_ms"
| "factor_ms Week = 7 * day_ms"
| "factor_ms Month = 30 * day_ms"

definition decimal_digit :: "nat \<Rightarrow> bool" where
  "decimal_digit c \<longleftrightarrow> c \<in> set (utf16 ''0123456789'')"

text \<open>
  White space: tab, line feed, vertical tab, form feed, carriage return, space,
  no-break space, the space separators of Unicode, the line and paragraph separators
  and the byte order mark.
\<close>

definition white_space :: "nat \<Rightarrow> bool" where
  "white_space c \<longleftrightarrow>
     c \<in> set [0x09, 0x0A, 0x0B, 0x0C, 0x0D, 0x20, 0xA0, 0x1680, 0x2000, 0x2001, 0x2002,
              0x2003, 0x2004, 0x2005, 0x2006, 0x2007, 0x2008, 0x2009, 0x200A, 0x2028,
              0x2029, 0x202F, 0x205F, 0x3000, 0xFEFF]"

definition lower_case :: "nat \<Rightarrow> nat" where
  "lower_case c = (if c \<in> set (utf16 ''ABCDEFGHIJKLMNOPQRSTUVWXYZ'') then c + 32 else c)"

text \<open>The number a string of decimal digits denotes, last digit first.\<close>

fun decimal_rev :: "js_string \<Rightarrow> nat" where
  "decimal_rev [] = 0"
| "decimal_rev (d # ds) = (d - 48) + 10 * decimal_rev ds"

definition decimal_value :: "js_string \<Rightarrow> nat" where
  "decimal_value ds = decimal_rev (rev ds)"

text \<open>The unit token at the start of a string, and what follows its first letters.\<close>

fun unit_token :: "js_string \<Rightarrow> (time_unit \<times> js_string) option" where
  "unit_token [] = None"
| "unit_token (c # cs) =
     (if [lower_case c] = utf16 ''m'' then
        (case cs of
           [] \<Rightarrow> Some (Minute, cs)
         | c' # cs' \<Rightarrow>
             if [lower_case c'] = utf16 ''o'' then Some (Month, cs') else Some (Minute, cs))
      else if [lower_case c] = utf16 ''w'' then Some (Week, cs)
      else if [lower_case c] = utf16 ''d'' then Some (Day, cs)
      else if [lower_case c] = utf16 ''h'' then Some (Hour, cs)
      else if [lower_case c] = utf16 ''s'' then Some (Second, cs)
      else None)"

lemma unit_token_length: "unit_token s = Some (t, r) \<Longrightarrow> length r < length s"
  by (cases s) (auto split: if_splits list.splits)

function duration_spec :: "js_string \<Rightarrow> (nat \<times> time_unit) list" where
  "duration_spec [] = []"
| "duration_spec (c # cs) =
     (if decimal_digit c then
        (case unit_token (dropWhile white_space (dropWhile decimal_digit (c # cs))) of
           Some (t, rest) \<Rightarrow>
             (decimal_value (takeWhile decimal_digit (c # cs)), t) # duration_spec rest
         | None \<Rightarrow> duration_spec cs)
      else duration_spec cs)"
  by pat_completeness auto
termination
proof (relation "measure length")
  show "wf (measure length)" by simp
next
  fix c :: nat and cs :: js_string and x t rest
  assume "decimal_digit c"
    and "unit_token (dropWhile white_space (dropWhile decimal_digit (c # cs))) = Some x"
    and "(t, rest) = x"
  then have "length rest < length (dropWhile white_space (dropWhile decimal_digit (c # cs)))"
    by (auto dest: unit_token_length)
  also have "\<dots> \<le> length (dropWhile decimal_digit (c # cs))"
    by (rule length_dropWhile_le)
  also have "\<dots> \<le> length (c # cs)"
    by (rule length_dropWhile_le)
  finally show "(rest, c # cs) \<in> measure length" by simp
next
  fix c :: nat and cs :: js_string
  show "(cs, c # cs) \<in> measure length" by simp
  show "(cs, c # cs) \<in> measure length" by simp
qed

declare duration_spec.simps [simp del]

definition total_ms :: "(nat \<times> time_unit) list \<Rightarrow> int" where
  "total_ms spec = sum_list (map (\<lambda>(n, t). int n * factor_ms t) spec)"

text \<open>The aliases of each unit, as the documentation of \<open>parseDuration\<close> lists them.\<close>

definition unit_of_token :: "js_string \<Rightarrow> time_unit option" where
  "unit_of_token t =
     (if t \<in> set (map utf16 [''w'', ''week'', ''weeks'']) then Some Week
      else if t \<in> set (map utf16 [''d'', ''day'', ''days'']) then Some Day
      else if t \<in> set (map utf16 [''h'', ''hour'', ''hours'']) then Some Hour
      else if t \<in> set (map utf16 [''m'', ''min'', ''minute'', ''minutes'']) then Some Minute
      else if t \<in> set (map utf16 [''s'', ''sec'', ''second'', ''seconds'']) then Some Second
      else if t \<in> set (map utf16 [''mo'', ''month'', ''months'']) then Some Month
      else None)"

text \<open>
  A well-formed duration string: a concatenation of pairs, each a non-empty run of decimal
  digits followed by one of the supported unit tokens, in any letter case.
\<close>

definition is_letter :: "nat \<Rightarrow> bool" where
  "is_letter c \<longleftrightarrow> (65 \<le> c \<and> c \<le> 90) \<or> (97 \<le> c \<and> c \<le> 122)"

function well_formed :: "js_string \<Rightarrow> bool" where
  "well_formed s =
     (if s = [] then True
      else if takeWhile is_digit s = [] then False
      else if toLowerCase (takeWhile is_letter (dropWhile is_digit s)) \<notin> set unit_alternatives
        then False
      else well_formed (dropWhile is_letter (dropWhile is_digit s)))"
  by pat_completeness auto
termination
proof (relation "measure length")
  show "wf (measure length)" by simp
next
  fix s :: js_string
  assume "s \<noteq> []" and d: "takeWhile is_digit s \<noteq> []"
  have "length (dropWhile is_letter (dropWhile is_digit s)) \<le> length (dropWhile is_digit s)"
    by (rule length_dropWhile_le)
  moreover have "length (dropWhile is_digit s) < length s"
  proof -
    have "length (takeWhile is_digit s) + length (dropWhile is_digit s) = length s"
      by (metis length_append takeWhile_dropWhile_id)
    with d show ?thesis by (cases "takeWhile is_digit s") auto
  qed
  ultimately show "(dropWhile is_letter (dropWhile is_digit s), s) \<in> measure length"
    by simp
qed

declare well_formed.simps [simp del]

section \<open>Cache middleware (cacheMiddleware, latest revision in src/unnamed/part_000)\<close>

text \<open>
  Objects (Redis clients, responses) are modelled by their identity, a number drawn from
  the allocation counter of the state. A JSON value is a value of the type parameter
  \<open>'j\<close>. Everything the middleware does to its surroundings is recorded, in order, as
  an event: the creation of a client, the commands sent to the store (\<open>get\<close>,
  \<open>set\<close>, \<open>expire\<close>, \<open>close\<close>), the call \<open>res.header?.(name, value)\<close>, the
  assignment to \<open>res.json\<close>, a call of the response function of the framework with
  its argument (\<open>None\<close> is \<open>undefined\<close>), and the call of \<open>next()\<close>. Console output
  is not modelled. Calls are modelled in the order in which the code awaits them.
\<close>

type_synonym client_id = nat

datatype redis_error = RedisError (code: "js_string option")

datatype 'j event =
    NewRedisClient client_id js_string
  | RedisGet client_id js_string
  | RedisSet client_id js_string js_string
  | RedisExpire client_id js_string js_number
  | RedisClose client_id
  | ResHeader js_string js_string
  | PatchJson
  | OriginalJson "'j option"
  | Next

text \<open>
  What the surroundings answer. The answer of the store to a command may depend on
  everything that happened before it (the events so far), so any sequence of answers is
  some \<open>env\<close>. An error carries its \<open>code\<close>, if it has one. The answer to
  \<open>expire\<close> and to \<open>close\<close> changes nothing, since every error of theirs is caught
  and their result is not used. \<open>JSON_parse\<close> is \<open>None\<close> where \<open>JSON.parse\<close>
  throws; a body is a JSON value, on which \<open>JSON.stringify\<close> is total; \<open>is_url\<close> is
  the URL check of the schema validator.
\<close>

record 'j env =
  redis_get :: "'j event list \<Rightarrow> client_id \<Rightarrow> js_string \<Rightarrow> redis_error + js_string option"
  redis_set :: "'j event list \<Rightarrow> client_id \<Rightarrow> js_string \<Rightarrow> js_string \<Rightarrow> redis_error option"
  JSON_parse :: "js_string \<Rightarrow> 'j option"
  JSON_stringify :: "'j \<Rightarrow> js_string"
  is_url :: "js_string \<Rightarrow> bool"

text \<open>
  The per-route configuration as the middleware receives it at run time. The type of
  the source promises \<open>duration: string\<close>; the code also handles a number and a missing
  field, so the model has them.
\<close>

datatype js_value = JString js_string | JNumber int | JOther

record cache_config =
  enabled :: "bool option"
  cacheKey :: "js_string option"
  duration :: "js_value option"

text \<open>
  \<open>cacheConfigSchema\<close>: \<open>enabled\<close> defaults to true, \<open>cacheKey\<close> is optional,
  \<open>duration\<close> is a required string. The result is \<open>None\<close> where validation fails.
\<close>

definition cacheConfigSchema_safeParse :: "cache_config \<Rightarrow> (bool \<times> js_string option \<times> js_string) option" where
  "cacheConfigSchema_safeParse c =
     (case duration c of
        Some (JString d) \<Rightarrow>
          Some ((case enabled c of None \<Rightarrow> True | Some b \<Rightarrow> b), cacheKey c, d)
      | _ \<Rightarrow> None)"

text \<open>
  The value of \<open>Config.get('breezeCache')\<close>: \<open>None\<close> stands for a value of the wrong
  shape, and each field may be missing.
\<close>

record breeze_config =
  redisUrl :: "js_string option"
  enabled_global :: "bool option"
  excludedPaths :: "js_string list option"
  debug :: "bool option"

text \<open>\<open>breezeCacheConfigSchema.safeParse\<close>: (redisUrl, enabled, excludedPaths, debug).\<close>

definition breezeCacheConfigSchema_safeParse ::
  "'j env \<Rightarrow> breeze_config option \<Rightarrow> (js_string \<times> bool \<times> js_string list option \<times> bool option) option" where
  "breezeCacheConfigSchema_safeParse env config =
     (case config of
        None \<Rightarrow> None
      | Some c \<Rightarrow>
          (case redisUrl c of
             None \<Rightarrow> None
           | Some u \<Rightarrow>
               if is_url env u
               then Some (u, (case enabled_global c of None \<Rightarrow> True | Some b \<Rightarrow> b),
                          excludedPaths c, debug c)
               else None))"

record api_request =
  url :: js_string

definition startsWith :: "js_string \<Rightarrow> js_string \<Rightarrow> bool" where
  "startsWith s p \<longleftrightarrow> take (length p) s = p"

text \<open>
  A response object: its identity, the value \<open>originalJson\<close> was called with
  (\<open>None\<close> is \<open>undefined\<close>), and the \<open>cache\<close> property the patched \<open>res.json\<close>
  attached to it.
\<close>

datatype 'j cache_property = NoCache | CacheNoop | CacheBody 'j

record 'j response =
  rid :: nat
  sent :: "'j option"
  cache_fn :: "'j cache_property"

datatype json_impl = Original | Patched

text \<open>
  The state: the three module variables, the variables of one invocation that its
  closures share, \<open>res.json\<close>, the events so far and the allocation counter.
\<close>

record 'j state =
  cacheInitialized :: bool
  sharedRedisClient :: "client_id option"
  sharedRedisUrl :: "js_string option"
  client :: client_id
  shouldCloseClient :: bool
  alreadyCached :: bool
  cacheHitValue :: "'j option"
  cacheHit :: bool
  cached :: "js_string option"
  retried :: bool
  res_json :: json_impl
  trace :: "'j event list"
  allocated :: nat

definition emit :: "'j event \<Rightarrow> 'j state \<Rightarrow> 'j state" where
  "emit e s = s\<lparr>trace := trace s @ [e]\<rparr>"

definition header_name :: js_string where
  "header_name = utf16 ''X-BREEZEAPI-CACHE''"

definition ERR_REDIS_CONNECTION_CLOSED :: js_string where
  "ERR_REDIS_CONNECTION_CLOSED = utf16 ''ERR_REDIS_CONNECTION_CLOSED''"

text \<open>\<open>new RedisClient(url)\<close>: a new object; no command is sent yet.\<close>

definition new_RedisClient :: "js_string \<Rightarrow> 'j state \<Rightarrow> client_id \<times> 'j state" where
  "new_RedisClient u s =
     (allocated s, emit (NewRedisClient (allocated s) u) (s\<lparr>allocated := Suc (allocated s)\<rparr>))"

text \<open>
  \<open>if (shouldCloseClient && typeof client.close === "function") { try { await
  client.close(); } catch {} }\<close>; a \<open>RedisClient\<close> has the method.
\<close>

definition close_per_request_client :: "'j state \<Rightarrow> 'j state" where
  "close_per_request_client s =
     (if shouldCloseClient s then emit (RedisClose (client s)) s else s)"

text \<open>The response function of the framework, \<open>originalJson\<close>.\<close>

definition originalJson :: "'j option \<Rightarrow> 'j state \<Rightarrow> 'j response \<times> 'j state" where
  "originalJson v s =
     (\<lparr>rid = allocated s, sent = v, cache_fn = NoCache\<rparr>,
      emit (OriginalJson v) (s\<lparr>allocated := Suc (allocated s)\<rparr>))"

text \<open>
  The TTL computation inside \<open>cache\<close>; \<open>conf\<close> itself may be undefined. For a string
  it is \<open>Math.floor(parseDuration(conf.duration) / 1000)\<close>.
\<close>

definition durationSeconds :: "cache_config option \<Rightarrow> js_number" where
  "durationSeconds conf =
     (case conf of
        None \<Rightarrow> Finite 60
      | Some c \<Rightarrow>
          (case duration c of
             None \<Rightarrow> Finite 60
           | Some (JString d) \<Rightarrow> js_floor_div (parseDuration d) 1000
           | Some (JNumber n) \<Rightarrow> Finite n
           | Some JOther \<Rightarrow> Finite 60))"

text \<open>
  The \<open>try\<close> block of \<open>cache\<close>: \<open>set\<close>, then \<open>expire\<close>; an error of \<open>set\<close> skips
  \<open>expire\<close>, and every error is caught.
\<close>

definition set_and_expire ::
  "'j env \<Rightarrow> js_string \<Rightarrow> js_string \<Rightarrow> js_number \<Rightarrow> 'j state \<Rightarrow> 'j state" where
  "set_and_expire env key v secs s =
     (case redis_set env (trace s) (client s) key v of
        Some err \<Rightarrow> emit (RedisSet (client s) key v) s
      | None \<Rightarrow>
          emit (RedisExpire (client s) key secs) (emit (RedisSet (client s) key v) s))"

text \<open>The \<open>cache\<close> property of a response made on a miss.\<close>

definition cache_body ::
  "cache_config option \<Rightarrow> 'j env \<Rightarrow> js_string \<Rightarrow> 'j \<Rightarrow> 'j response \<Rightarrow> 'j state
   \<Rightarrow> 'j response \<times> 'j state" where
  "cache_body conf env key body response s =
     (if alreadyCached s then (response, s)
      else
        let s1 = s\<lparr>alreadyCached := True\<rparr>;
            s2 = set_and_expire env key (JSON_stringify env body) (durationSeconds conf) s1;
            s3 = close_per_request_client s2;
            s4 = emit (ResHeader header_name (utf16 ''MISS'')) s3
        in (response, s4))"

text \<open>Calling the \<open>cache\<close> property of a response that has one.\<close>

definition call_cache ::
  "cache_config option \<Rightarrow> 'j env \<Rightarrow> js_string \<Rightarrow> 'j response \<Rightarrow> 'j state
   \<Rightarrow> 'j response \<times> 'j state" where
  "call_cache conf env key response s =
     (case cache_fn response of
        CacheBody body \<Rightarrow> cache_body conf env key body response s
      | _ \<Rightarrow> (response, s))"

text \<open>The patched \<open>res.json\<close>.\<close>

definition patched_json :: "'j \<Rightarrow> 'j state \<Rightarrow> 'j response \<times> 'j state" where
  "patched_json body s =
     (if cacheHit s
      then (let (response, s') = originalJson (cacheHitValue s) s
            in (response\<lparr>cache_fn := CacheNoop\<rparr>, s'))
      else (let (response, s') = originalJson (Some body) s
            in (response\<lparr>cache_fn := CacheBody body\<rparr>, s')))"

text \<open>\<open>res.json(body)\<close>, whichever function \<open>res.json\<close> is at the time of the call.\<close>

definition call_json :: "'j \<Rightarrow> 'j state \<Rightarrow> 'j response \<times> 'j state" where
  "call_json body s =
     (case res_json s of
        Original \<Rightarrow> originalJson (Some body) s
      | Patched \<Rightarrow> patched_json body s)"

text \<open>
  The downstream handler. Whatever its code is, towards the middleware a run of it is
  a sequence of calls: \<open>res.json(body)\<close>, and \<open>.cache()\<close> on a value it obtained
  earlier (\<open>CallCache i\<close>: on the \<open>i\<close>-th value obtained so far). Calling \<open>.cache()\<close>
  on a value that has no such property throws a \<open>TypeError\<close>, which ends the run. The
  result of a run is the list of the values obtained, from which the handler computes
  what it returns.
\<close>

datatype 'j command = CallJson 'j | CallCache nat

datatype handler_error = TypeError

fun run_handler ::
  "cache_config option \<Rightarrow> 'j env \<Rightarrow> js_string \<Rightarrow> 'j command list \<Rightarrow> 'j response list
   \<Rightarrow> 'j state \<Rightarrow> (handler_error + 'j response list) \<times> 'j state" where
  "run_handler conf env key [] obtained s = (Inr obtained, s)"
| "run_handler conf env key (CallJson body # cs) obtained s =
     (let (r, s') = call_json body s
      in run_handler conf env key cs (obtained @ [r]) s')"
| "run_handler conf env key (CallCache i # cs) obtained s =
     (if i < length obtained \<and> cache_fn (obtained ! i) \<noteq> NoCache
      then (let (r, s') = call_cache conf env key (obtained ! i) s
            in run_handler conf env key cs (obtained @ [r]) s')
      else (Inl TypeError, s))"

text \<open>\<open>return next()\<close>: the handler runs, and its result is the result of the middleware.\<close>

definition call_next ::
  "cache_config option \<Rightarrow> 'j env \<Rightarrow> js_string \<Rightarrow> 'j command list \<Rightarrow> 'j state
   \<Rightarrow> (handler_error + 'j response list) \<times> 'j state" where
  "call_next conf env key handler s = run_handler conf env key handler [] (emit Next s)"

text \<open>\<open>client.get(cacheKey)\<close>: the answer of the store, and the event.\<close>

definition client_get :: "'j env \<Rightarrow> js_string \<Rightarrow> 'j state \<Rightarrow> (redis_error + js_string option) \<times> 'j state" where
  "client_get env key s =
     (redis_get env (trace s) (client s) key, emit (RedisGet (client s) key) s)"

text \<open>
  The reconnect inside \<open>tryGetCache\<close>: an exclusive client is closed and replaced by a
  new one; a shared client is replaced, for every later request too, and not closed.
\<close>

definition reconnect :: "js_string \<Rightarrow> 'j state \<Rightarrow> 'j state" where
  "reconnect u s =
     (let s1 = close_per_request_client s
      in if shouldCloseClient s1
         then (let (c, s2) = new_RedisClient u s1 in s2\<lparr>client := c\<rparr>)
         else if sharedRedisClient s1 \<noteq> None \<and> sharedRedisUrl s1 = Some u
         then (let (c, s2) = new_RedisClient u s1 in s2\<lparr>sharedRedisClient := Some c, client := c\<rparr>)
         else s1)"

definition tryGetCache :: "'j env \<Rightarrow> js_string \<Rightarrow> js_string \<Rightarrow> 'j state \<Rightarrow> bool \<times> 'j state" where
  "tryGetCache env u key s =
     (case client_get env key s of
        (Inr v, s1) \<Rightarrow> (True, s1\<lparr>cached := v\<rparr>)
      | (Inl err, s1) \<Rightarrow>
          if \<not> retried s1 \<and> code err = Some ERR_REDIS_CONNECTION_CLOSED
          then (case client_get env key (reconnect u (s1\<lparr>retried := True\<rparr>)) of
                  (Inr v, s2) \<Rightarrow> (True, s2\<lparr>cached := v\<rparr>)
                | (Inl err2, s2) \<Rightarrow> (False, s2))
          else (False, s1))"

text \<open>
  The choice of the client: the shared one when there is one for this URL, a new one,
  to be closed by this request, otherwise.
\<close>

definition acquire_client :: "js_string \<Rightarrow> 'j state \<Rightarrow> 'j state" where
  "acquire_client u s =
     (case sharedRedisClient s of
        Some c \<Rightarrow>
          if sharedRedisUrl s = Some u
          then s\<lparr>shouldCloseClient := False, client := c, cacheInitialized := True\<rparr>
          else (let (c', s') = new_RedisClient u (s\<lparr>shouldCloseClient := False\<rparr>)
                in s'\<lparr>client := c', cacheInitialized := True, shouldCloseClient := True\<rparr>)
      | None \<Rightarrow>
          (let (c', s') = new_RedisClient u (s\<lparr>shouldCloseClient := False\<rparr>)
           in s'\<lparr>client := c', cacheInitialized := True, shouldCloseClient := True\<rparr>))"

text \<open>
  \<open>res.json = ...\<close> with the variables its closures use, then the variables of
  \<open>tryGetCache\<close>.
\<close>

definition patch_res_json :: "'j state \<Rightarrow> 'j state" where
  "patch_res_json s =
     (emit PatchJson (s\<lparr>alreadyCached := False, cacheHitValue := None, cacheHit := False,
                         res_json := Patched\<rparr>))\<lparr>cached := None, retried := False\<rparr>"

text \<open>
  What follows a successful \<open>tryGetCache\<close>: \<open>if (cached) { try { ... } catch { } }\<close>.
  The empty string is falsy. The two flags are set before \<open>JSON.parse\<close> is called.
\<close>

definition after_lookup :: "'j env \<Rightarrow> 'j state \<Rightarrow> 'j state" where
  "after_lookup env s =
     (case cached s of
        None \<Rightarrow> s
      | Some v \<Rightarrow>
          if v = [] then s
          else
            (let s1 = s\<lparr>alreadyCached := True, cacheHit := True\<rparr>
             in case JSON_parse env v of
                  None \<Rightarrow> s1
                | Some j \<Rightarrow>
                    close_per_request_client
                      (emit (ResHeader header_name (utf16 ''HIT'')) (s1\<lparr>cacheHitValue := Some j\<rparr>))))"

definition cacheMiddleware ::
  "cache_config option \<Rightarrow> 'j env \<Rightarrow> breeze_config option \<Rightarrow> api_request \<Rightarrow> 'j command list
   \<Rightarrow> 'j state \<Rightarrow> (handler_error + 'j response list) \<times> 'j state" where
  "cacheMiddleware conf env BreezeConfig req handler s =
     (case breezeCacheConfigSchema_safeParse env BreezeConfig of
        None \<Rightarrow> call_next conf env (url req) handler (s\<lparr>cacheInitialized := False\<rparr>)
      | Some (u, on, excluded, dbg) \<Rightarrow>
          if u = [] then call_next conf env (url req) handler (s\<lparr>cacheInitialized := False\<rparr>)
          else if \<not> on then call_next conf env (url req) handler (s\<lparr>cacheInitialized := False\<rparr>)
          else if (case excluded of None \<Rightarrow> False | Some ps \<Rightarrow> list_ex (startsWith (url req)) ps)
          then call_next conf env (url req) handler s
          else
            (let s1 = acquire_client u s;
                 s2 = patch_res_json s1;
                 (cacheOk, s3) = tryGetCache env u (url req) s2
             in if \<not> cacheOk
                then call_next conf env (url req) handler (close_per_request_client s3)
                else call_next conf env (url req) handler (after_lookup env s3)))"

section \<open>Properties of the duration parser\<close>

subsection \<open>Integers that a double holds, and the character classes of the scan\<close>

lemma to_number_exact: "n < 2 ^ 53 \<Longrightarrow> to_number n = Finite n"
proof -
  assume n: "n < 2 ^ 53"
  have "(2::int) ^ 53 < 2 ^ 1024" by (rule power_strict_increasing) simp_all
  with n have "n < 2 ^ 1024" by (rule less_trans)
  with n show ?thesis by (simp add: to_number_def round_to_double_def)
qed

lemma js_mul_exact: "a * k < 2 ^ 53 \<Longrightarrow> js_mul (Finite a) k = Finite (a * k)"
  by (simp add: to_number_exact)

lemma js_add_exact: "a + b < 2 ^ 53 \<Longrightarrow> js_add (Finite a) (Finite b) = Finite (a + b)"
  by (simp add: to_number_exact)

lemma digits_upt: "utf16 ''0123456789'' = [48..<58]"
  by (simp add: utf16_def)

lemma decimal_digit_eq: "decimal_digit = is_digit"
proof
  fix c
  show "decimal_digit c = is_digit c"
    by (simp only: decimal_digit_def is_digit_def digits_upt set_upt atLeastLessThan_iff, arith)
qed

lemma white_space_upt:
  "[0x09, 0x0A, 0x0B, 0x0C, 0x0D, 0x20, 0xA0, 0x1680, 0x2000, 0x2001, 0x2002,
    0x2003, 0x2004, 0x2005, 0x2006, 0x2007, 0x2008, 0x2009, 0x200A, 0x2028,
    0x2029, 0x202F, 0x205F, 0x3000, 0xFEFF] =
   [9..<14] @ [32, 160, 5760] @ [8192..<8203] @ [8232, 8233, 8239, 8287, 12288, 65279::nat]"
  by simp

lemma white_space_eq: "white_space = is_space"
proof
  fix c
  show "white_space c = is_space c"
    by (simp only: white_space_def is_space_def white_space_upt set_append set_upt Un_iff
        atLeastLessThan_iff, auto)
qed

lemma upper_upt: "utf16 ''ABCDEFGHIJKLMNOPQRSTUVWXYZ'' = [65..<91]"
  by (simp add: utf16_def)

lemma lower_case_eq: "lower_case c = (if 65 \<le> c \<and> c \<le> 90 then c + 32 else c)"
proof -
  have "c \<in> set [65..<91] \<longleftrightarrow> 65 \<le> c \<and> c \<le> 90"
    by (simp only: set_upt atLeastLessThan_iff, arith)
  then show ?thesis
    by (simp only: lower_case_def upper_upt)
qed

lemma toLowerCase_eq: "toLowerCase s = map lower_case s"
  by (simp add: toLowerCase_def lower_case_eq)

lemma canonicalize_eq_iff:
  "65 \<le> k \<Longrightarrow> k \<le> 90 \<Longrightarrow> (k = canonicalize c) = (lower_case c = k + 32)"
  by (auto simp: canonicalize_def lower_case_eq)

lemma decimal_value_snoc:
  "decimal_value (ds @ [d]) = (d - 48) + 10 * decimal_value ds"
  by (simp add: decimal_value_def)

lemma parseInt_decimal_value:
  "list_all is_digit ds \<Longrightarrow>
   foldl (\<lambda>a d. a * 10 + (int d - 48)) 0 ds = int (decimal_value ds)"
proof (induction ds rule: rev_induct)
  case Nil
  then show ?case by (simp add: decimal_value_def)
next
  case (snoc d ds)
  then have "48 \<le> d" by (simp add: is_digit_def)
  then have "int (d - 48) = int d - 48" by simp
  with snoc show ?case by (simp add: decimal_value_snoc)
qed

lemma parseInt_exact:
  "list_all is_digit ds \<Longrightarrow> int (decimal_value ds) < 2 ^ 53 \<Longrightarrow>
   parseInt ds = Finite (int (decimal_value ds))"
  by (simp add: parseInt_def parseInt_decimal_value to_number_exact)

lemma factor_ms_pos: "0 < factor_ms t"
  by (cases t; simp add: second_ms_def day_ms_def)

lemma total_ms_nonneg: "0 \<le> total_ms spec"
proof (induction spec)
  case Nil
  then show ?case by (simp add: total_ms_def)
next
  case (Cons x xs)
  obtain n t where x: "x = (n, t)" by (cases x)
  have "0 \<le> int n * factor_ms t" using factor_ms_pos[of t] by simp
  with Cons show ?case by (simp add: total_ms_def x)
qed

lemma total_ms_Cons: "total_ms ((n, t) # xs) = int n * factor_ms t + total_ms xs"
  by (simp add: total_ms_def)

lemma total_ms_append: "total_ms (xs @ ys) = total_ms xs + total_ms ys"
  by (simp add: total_ms_def)

text \<open>The \<open>switch\<close> adds quantity times factor, exactly, while the sum is a safe integer.\<close>

lemma unit_of_token_Second:
  "unit_of_token u = Some Second \<Longrightarrow> u \<in> set (map utf16 [''s'', ''sec'', ''second'', ''seconds''])"
  by (simp add: unit_of_token_def split: if_splits)

lemma switch_unit_Second:
  "u \<in> set (map utf16 [''s'', ''sec'', ''second'', ''seconds'']) \<Longrightarrow>
   switch_unit u v ms = js_add ms (js_mul v 1000)"
  apply simp
  apply (elim disjE)
  apply (simp_all add: switch_unit_def utf16_def)
  done

lemma unit_of_token_Minute:
  "unit_of_token u = Some Minute \<Longrightarrow> u \<in> set (map utf16 [''m'', ''min'', ''minute'', ''minutes''])"
  by (simp add: unit_of_token_def split: if_splits)

lemma switch_unit_Minute:
  "u \<in> set (map utf16 [''m'', ''min'', ''minute'', ''minutes'']) \<Longrightarrow>
   switch_unit u v ms = js_add ms (js_mul (js_mul v 60) 1000)"
  apply simp
  apply (elim disjE)
  apply (simp_all add: switch_unit_def utf16_def)
  done

lemma unit_of_token_Hour:
  "unit_of_token u = Some Hour \<Longrightarrow> u \<in> set (map utf16 [''h'', ''hour'', ''hours''])"
  by (simp add: unit_of_token_def split: if_splits)

lemma switch_unit_Hour:
  "u \<in> set (map utf16 [''h'', ''hour'', ''hours'']) \<Longrightarrow>
   switch_unit u v ms = js_add ms (js_mul (js_mul (js_mul v 60) 60) 1000)"
  apply simp
  apply (elim disjE)
  apply (simp_all add: switch_unit_def utf16_def)
  done

lemma unit_of_token_Day:
  "unit_of_token u = Some Day \<Longrightarrow> u \<in> set (map utf16 [''d'', ''day'', ''days''])"
  by (simp add: unit_of_token_def split: if_splits)

lemma switch_unit_Day:
  "u \<in> set (map utf16 [''d'', ''day'', ''days'']) \<Longrightarrow>
   switch_unit u v ms = js_add ms (js_mul (js_mul (js_mul (js_mul v 24) 60) 60) 1000)"
  apply simp
  apply (elim disjE)
  apply (simp_all add: switch_unit_def utf16_def)
  done

lemma unit_of_token_Week:
  "unit_of_token u = Some Week \<Longrightarrow> u \<in> set (map utf16 [''w'', ''week'', ''weeks''])"
  by (simp add: unit_of_token_def split: if_splits)

lemma switch_unit_Week:
  "u \<in> set (map utf16 [''w'', ''week'', ''weeks'']) \<Longrightarrow>
   switch_unit u v ms = js_add ms (js_mul (js_mul (js_mul (js_mul (js_mul v 7) 24) 60) 60) 1000)"
  apply simp
  apply (elim disjE)
  apply (simp_all add: switch_unit_def utf16_def)
  done

lemma unit_of_token_Month:
  "unit_of_token u = Some Month \<Longrightarrow> u \<in> set (map utf16 [''mo'', ''month'', ''months''])"
  by (simp add: unit_of_token_def split: if_splits)

lemma switch_unit_Month:
  "u \<in> set (map utf16 [''mo'', ''month'', ''months'']) \<Longrightarrow>
   switch_unit u v ms = js_add ms (js_mul (js_mul (js_mul (js_mul (js_mul v 30) 24) 60) 60) 1000)"
  apply simp
  apply (elim disjE)
  apply (simp_all add: switch_unit_def utf16_def)
  done

lemma switch_unit_exact:
  assumes u: "unit_of_token u = Some t"
    and n: "0 \<le> n" and ms: "0 \<le> ms" and b: "ms + n * factor_ms t < 2 ^ 53"
  shows "switch_unit u (Finite n) (Finite ms) = Finite (ms + n * factor_ms t)"
proof (cases t)
  case Second
  from b n ms Second have "n * 1000 < 2 ^ 53" "ms + n * 1000 < 2 ^ 53"
    by (simp_all add: second_ms_def)
  then have "js_add (Finite ms) (js_mul (Finite n) 1000) = Finite (ms + n * 1000)"
    by (simp add: to_number_exact)
  with u Second show ?thesis
    by (simp add: switch_unit_Second[OF unit_of_token_Second] second_ms_def)
next
  case Minute
  from b n ms Minute have "n * 60 < 2 ^ 53" "n * 60 * 1000 < 2 ^ 53" "ms + n * 60 * 1000 < 2 ^ 53"
    by (simp_all add: second_ms_def)
  then have "js_add (Finite ms) (js_mul (js_mul (Finite n) 60) 1000) = Finite (ms + n * 60 * 1000)"
    by (simp add: to_number_exact)
  with u Minute show ?thesis
    by (simp add: switch_unit_Minute[OF unit_of_token_Minute] second_ms_def)
next
  case Hour
  from b n ms Hour have "n * 60 < 2 ^ 53" "n * 60 * 60 < 2 ^ 53" "n * 60 * 60 * 1000 < 2 ^ 53" "ms + n * 60 * 60 * 1000 < 2 ^ 53"
    by (simp_all add: second_ms_def)
  then have "js_add (Finite ms) (js_mul (js_mul (js_mul (Finite n) 60) 60) 1000) = Finite (ms + n * 60 * 60 * 1000)"
    by (simp add: to_number_exact)
  with u Hour show ?thesis
    by (simp add: switch_unit_Hour[OF unit_of_token_Hour] second_ms_def)
next
  case Day
  from b n ms Day have "n * 24 < 2 ^ 53" "n * 24 * 60 < 2 ^ 53" "n * 24 * 60 * 60 < 2 ^ 53" "n * 24 * 60 * 60 * 1000 < 2 ^ 53" "ms + n * 24 * 60 * 60 * 1000 < 2 ^ 53"
    by (simp_all add: second_ms_def day_ms_def)
  then have "js_add (Finite ms) (js_mul (js_mul (js_mul (js_mul (Finite n) 24) 60) 60) 1000) = Finite (ms + n * 24 * 60 * 60 * 1000)"
    by (simp add: to_number_exact)
  with u Day show ?thesis
    by (simp add: switch_unit_Day[OF unit_of_token_Day] second_ms_def day_ms_def)
next
  case Week
  from b n ms Week have "n * 7 < 2 ^ 53" "n * 7 * 24 < 2 ^ 53" "n * 7 * 24 * 60 < 2 ^ 53" "n * 7 * 24 * 60 * 60 < 2 ^ 53" "n * 7 * 24 * 60 * 60 * 1000 < 2 ^ 53" "ms + n * 7 * 24 * 60 * 60 * 1000 < 2 ^ 53"
    by (simp_all add: second_ms_def day_ms_def)
  then have "js_add (Finite ms) (js_mul (js_mul (js_mul (js_mul (js_mul (Finite n) 7) 24) 60) 60) 1000) = Finite (ms + n * 7 * 24 * 60 * 60 * 1000)"
    by (simp add: to_number_exact)
  with u Week show ?thesis
    by (simp add: switch_unit_Week[OF unit_of_token_Week] second_ms_def day_ms_def)
next
  case Month
  from b n ms Month have "n * 30 < 2 ^ 53" "n * 30 * 24 < 2 ^ 53" "n * 30 * 24 * 60 < 2 ^ 53" "n * 30 * 24 * 60 * 60 < 2 ^ 53" "n * 30 * 24 * 60 * 60 * 1000 < 2 ^ 53" "ms + n * 30 * 24 * 60 * 60 * 1000 < 2 ^ 53"
    by (simp_all add: second_ms_def day_ms_def)
  then have "js_add (Finite ms) (js_mul (js_mul (js_mul (js_mul (js_mul (Finite n) 30) 24) 60) 60) 1000) = Finite (ms + n * 30 * 24 * 60 * 60 * 1000)"
    by (simp add: to_number_exact)
  with u Month show ?thesis
    by (simp add: switch_unit_Month[OF unit_of_token_Month] second_ms_def day_ms_def)
qed

subsection \<open>The unit group and the greedy reading of the pattern\<close>

lemma canonicalize_literal:
  "97 \<le> p \<Longrightarrow> p \<le> 122 \<Longrightarrow> (canonicalize p = canonicalize c) = (lower_case c = p)"
  by (auto simp: canonicalize_def lower_case_eq)

lemma unit_token_None:
  "unit_token s = None \<Longrightarrow> match_alternation unit_alternatives s = None"
proof (cases s)
  case Nil
  then show ?thesis by (simp add: unit_alternatives_def utf16_def)
next
  case (Cons c cs)
  assume "unit_token s = None"
  with Cons have "lower_case c \<noteq> 109" "lower_case c \<noteq> 119" "lower_case c \<noteq> 100"
    "lower_case c \<noteq> 104" "lower_case c \<noteq> 115"
    by (simp_all add: utf16_def split: if_splits list.splits)
  with Cons show ?thesis
    by (simp add: unit_alternatives_def utf16_def canonicalize_literal)
qed


lemma unit_token_first:
  assumes "lower_case c = p" and "p \<in> {119, 100, 104, 115}"
  shows "match_alternation unit_alternatives (c # cs) = Some ([c], cs)"
  using assms by (auto simp: unit_alternatives_def utf16_def canonicalize_literal)

lemma unit_token_minute_end:
  assumes "lower_case c = 109"
  shows "match_alternation unit_alternatives [c] = Some ([c], [])"
  using assms by (simp add: unit_alternatives_def utf16_def canonicalize_literal)

lemma unit_token_minute:
  assumes "lower_case c = 109" and "lower_case c' \<noteq> 111"
  shows "match_alternation unit_alternatives (c # c' # cs) = Some ([c], c' # cs)"
  using assms by (simp add: unit_alternatives_def utf16_def canonicalize_literal)

lemma unit_token_month:
  assumes "lower_case c = 109" and "lower_case c' = 111"
  shows "match_alternation unit_alternatives (c # c' # cs) = Some ([c, c'], cs)"
  using assms by (simp add: unit_alternatives_def utf16_def canonicalize_literal)

lemma unit_token_Some:
  assumes "unit_token s = Some (t, rest)"
  shows "\<exists>u. match_alternation unit_alternatives s = Some (u, rest)
           \<and> unit_of_token (toLowerCase u) = Some t"
proof (cases s)
  case Nil
  with assms show ?thesis by simp
next
  case (Cons c cs)
  show ?thesis
  proof (cases "lower_case c = 109")
    case m: True
    show ?thesis
    proof (cases cs)
      case Nil
      with assms Cons m have "t = Minute" "rest = []" by (simp_all add: utf16_def)
      with Cons Nil m show ?thesis
        by (simp add: unit_token_minute_end toLowerCase_eq unit_of_token_def utf16_def)
    next
      case c': (Cons c' cs')
      show ?thesis
      proof (cases "lower_case c' = 111")
        case True
        with assms Cons c' m have "t = Month" "rest = cs'" by (simp_all add: utf16_def)
        with Cons c' m True show ?thesis
          by (simp add: unit_token_month toLowerCase_eq unit_of_token_def utf16_def)
      next
        case False
        with assms Cons c' m have "t = Minute" "rest = cs" by (simp_all add: utf16_def)
        with Cons c' m False show ?thesis
          by (simp add: unit_token_minute toLowerCase_eq unit_of_token_def utf16_def)
      qed
    qed
  next
    case False
    with assms Cons have r: "rest = cs"
      and p: "lower_case c \<in> {119, 100, 104, 115}"
      and t: "t = (if lower_case c = 119 then Week else if lower_case c = 100 then Day
                   else if lower_case c = 104 then Hour else Second)"
      by (auto simp: utf16_def split: if_splits)
    from p have "match_alternation unit_alternatives (c # cs) = Some ([c], cs)"
      by (rule unit_token_first[OF refl])
    moreover from p t have "unit_of_token (toLowerCase [c]) = Some t"
      by (auto simp: toLowerCase_eq unit_of_token_def utf16_def)
    ultimately show ?thesis using Cons r by simp
  qed
qed


text \<open>The backtracking of the pattern never finds what the greedy reading misses.\<close>

lemma no_unit_at_digit_or_space:
  assumes "is_digit c \<or> is_space c"
  shows "match_alternation unit_alternatives (c # cs) = None"
proof (rule unit_token_None)
  from assms have "lower_case c = c" "c < 97 \<or> 122 < c"
    by (auto simp: lower_case_eq is_digit_def is_space_def)
  then show "unit_token (c # cs) = None"
    by (auto simp: utf16_def)
qed

lemma try_spaces_greedy:
  "j \<le> length (takeWhile is_space s) \<Longrightarrow>
   try_spaces j s = match_alternation unit_alternatives (drop j s)"
proof (induction j)
  case 0
  then show ?case by simp
next
  case (Suc j)
  then have j: "j < length (takeWhile is_space s)" by simp
  then have "is_space (takeWhile is_space s ! j)"
    by (metis nth_mem set_takeWhileD)
  with j have sp: "is_space (s ! j)" by (simp add: takeWhile_nth)
  have "length (takeWhile is_space s) \<le> length s" by (rule length_takeWhile_le)
  with j have "j < length s" by simp
  then have "drop j s = s ! j # drop (Suc j) s" by (rule Cons_nth_drop_Suc[symmetric])
  with sp have "match_alternation unit_alternatives (drop j s) = None"
    by (simp add: no_unit_at_digit_or_space)
  with Suc.IH j have "try_spaces j s = None" by simp
  then show ?case by (simp split: option.splits)
qed

lemma try_spaces_dropWhile:
  "try_spaces (length (takeWhile is_space s)) s =
   match_alternation unit_alternatives (dropWhile is_space s)"
  by (simp add: try_spaces_greedy dropWhile_eq_drop)

lemma digit_not_space: "is_digit c \<Longrightarrow> \<not> is_space c"
  by (auto simp: is_digit_def is_space_def)

lemma try_digits_below:
  "k < length (takeWhile is_digit s) \<Longrightarrow> try_digits k s = None"
proof (induction k)
  case 0
  then show ?case by simp
next
  case (Suc k)
  then have "is_digit (takeWhile is_digit s ! Suc k)"
    by (metis nth_mem set_takeWhileD)
  with Suc.prems have d: "is_digit (s ! Suc k)" by (simp add: takeWhile_nth)
  have "length (takeWhile is_digit s) \<le> length s" by (rule length_takeWhile_le)
  with Suc.prems have "Suc k < length s" by simp
  then have dr: "drop (Suc k) s = s ! Suc k # drop (Suc (Suc k)) s"
    by (rule Cons_nth_drop_Suc[symmetric])
  from d have "takeWhile is_space (drop (Suc k) s) = []"
    by (simp add: dr digit_not_space)
  moreover from d have "match_alternation unit_alternatives (drop (Suc k) s) = None"
    by (simp add: dr no_unit_at_digit_or_space)
  moreover from Suc have "try_digits k s = None" by simp
  ultimately show ?case by simp
qed

lemma match_here_greedy:
  "match_here s =
     (if takeWhile is_digit s = [] then None
      else case match_alternation unit_alternatives
                  (dropWhile is_space (dropWhile is_digit s)) of
             Some (u, rest) \<Rightarrow> Some (takeWhile is_digit s, u, rest)
           | None \<Rightarrow> None)"
proof (cases "length (takeWhile is_digit s)")
  case 0
  then show ?thesis by (simp add: match_here_def)
next
  case (Suc k)
  then have ne: "takeWhile is_digit s \<noteq> []" by auto
  from Suc have below: "try_digits k s = None" by (simp add: try_digits_below)
  from Suc have tk: "take (Suc k) s = takeWhile is_digit s"
    by (metis takeWhile_eq_take)
  from Suc have dr: "drop (Suc k) s = dropWhile is_digit s"
    by (metis dropWhile_eq_drop)
  have "match_here s = try_digits (Suc k) s"
    by (simp only: match_here_def Suc)
  also have "\<dots> =
      (case try_spaces (length (takeWhile is_space (dropWhile is_digit s)))
              (dropWhile is_digit s) of
         Some (u, rest) \<Rightarrow> Some (takeWhile is_digit s, u, rest)
       | None \<Rightarrow> None)"
    by (simp only: try_digits.simps dr tk below)
  finally show ?thesis
    by (simp only: try_spaces_dropWhile ne if_False)
qed

subsection \<open>The loop computes the sum of the specification\<close>

text \<open>One step of the scan of the specification is one \<open>exec\<close> of the pattern.\<close>

lemma match_here_digits:
  "match_here s = Some (d, u, rest) \<Longrightarrow> d = takeWhile is_digit s \<and> d \<noteq> []"
  by (auto simp: match_here_greedy split: if_splits option.splits)

lemma duration_spec_match_here:
  "duration_spec (c # cs) =
     (case match_here (c # cs) of
        None \<Rightarrow> duration_spec cs
      | Some (d, u, rest) \<Rightarrow>
          (decimal_value d, the (unit_of_token (toLowerCase u))) # duration_spec rest)"
proof (cases "is_digit c")
  case False
  then show ?thesis
    by (simp add: duration_spec.simps decimal_digit_eq match_here_greedy)
next
  case True
  let ?r = "dropWhile is_space (dropWhile is_digit (c # cs))"
  from True have ne: "takeWhile is_digit (c # cs) \<noteq> []" by simp
  show ?thesis
  proof (cases "unit_token ?r")
    case None
    then have "match_alternation unit_alternatives ?r = None" by (rule unit_token_None)
    then have "match_here (c # cs) = None"
      by (simp only: match_here_greedy ne if_False option.case)
    with None True show ?thesis
      by (simp add: duration_spec.simps decimal_digit_eq white_space_eq)
  next
    case (Some a)
    obtain t rest where a: "a = (t, rest)" by (cases a)
    from Some a obtain u where u: "match_alternation unit_alternatives ?r = Some (u, rest)"
      "unit_of_token (toLowerCase u) = Some t"
      by (auto dest: unit_token_Some)
    from u(1) have "match_here (c # cs) = Some (takeWhile is_digit (c # cs), u, rest)"
      by (simp only: match_here_greedy ne if_False option.case prod.case)
    with Some a u(2) True show ?thesis
      by (simp add: duration_spec.simps decimal_digit_eq white_space_eq)
  qed
qed

lemma match_here_unit:
  assumes "match_here s = Some (d, u, rest)"
  shows "\<exists>t. unit_of_token (toLowerCase u) = Some t"
proof -
  let ?r = "dropWhile is_space (dropWhile is_digit s)"
  from assms have alt: "match_alternation unit_alternatives ?r = Some (u, rest)"
    by (auto simp: match_here_greedy split: if_splits option.splits)
  show ?thesis
  proof (cases "unit_token ?r")
    case None
    then have "match_alternation unit_alternatives ?r = None" by (rule unit_token_None)
    with alt show ?thesis by simp
  next
    case (Some a)
    obtain t r where "a = (t, r)" by (cases a)
    with Some alt show ?thesis by (auto dest: unit_token_Some)
  qed
qed

lemma regex_exec_groups:
  "regex_exec s = Some (d, u, rest) \<Longrightarrow>
   list_all is_digit d \<and> (\<exists>t. unit_of_token (toLowerCase u) = Some t)"
proof (induction s)
  case Nil
  then show ?case by simp
next
  case (Cons c cs)
  show ?case
  proof (cases "match_here (c # cs)")
    case None
    with Cons show ?thesis by simp
  next
    case (Some a)
    with Cons.prems have m: "match_here (c # cs) = Some (d, u, rest)" by simp
    from match_here_digits[OF m] have "list_all is_digit d"
      by (auto simp: list_all_iff dest: set_takeWhileD)
    with match_here_unit[OF m] show ?thesis by simp
  qed
qed

lemma duration_spec_regex_exec:
  "duration_spec s =
     (case regex_exec s of
        None \<Rightarrow> []
      | Some (d, u, rest) \<Rightarrow>
          (decimal_value d, the (unit_of_token (toLowerCase u))) # duration_spec rest)"
proof (induction s)
  case Nil
  then show ?case by (simp add: duration_spec.simps)
next
  case (Cons c cs)
  show ?case
  proof (cases "match_here (c # cs)")
    case None
    with Cons show ?thesis by (simp add: duration_spec_match_here)
  next
    case (Some a)
    then show ?thesis by (simp add: duration_spec_match_here)
  qed
qed

text \<open>
  While the sum stays below \<open>2 ^ 53\<close>, every product and every partial sum of the loop is
  an integer a double holds, and the loop computes the sum of the specification.
\<close>

lemma parseDuration_loop_exact:
  "0 \<le> ms \<Longrightarrow> ms + total_ms (duration_spec input) < 2 ^ 53 \<Longrightarrow>
   parseDuration_loop input (Finite ms) = Finite (ms + total_ms (duration_spec input))"
proof (induction input arbitrary: ms rule: length_induct)
  case (1 input)
  show ?case
  proof (cases "regex_exec input")
    case None
    then have "duration_spec input = []" by (simp add: duration_spec_regex_exec[of input])
    with None show ?thesis by (simp add: parseDuration_loop.simps[of input] total_ms_def)
  next
    case (Some a)
    obtain d u rest where a: "a = (d, u, rest)" by (cases a)
    with Some have ex: "regex_exec input = Some (d, u, rest)" by simp
    from regex_exec_groups[OF ex] obtain t where
      dig: "list_all is_digit d" and t: "unit_of_token (toLowerCase u) = Some t" by auto
    let ?n = "int (decimal_value d)"
    from ex t have spec: "duration_spec input = (decimal_value d, t) # duration_spec rest"
      by (simp add: duration_spec_regex_exec[of input])
    have rest0: "0 \<le> total_ms (duration_spec rest)" by (rule total_ms_nonneg)
    have f: "1 \<le> factor_ms t" using factor_ms_pos[of t] by simp
    have n0: "0 \<le> ?n" by simp
    from f n0 have nf: "?n \<le> ?n * factor_ms t" by (simp add: mult_le_cancel_left1)
    from 1(3) spec have b: "ms + ?n * factor_ms t + total_ms (duration_spec rest) < 2 ^ 53"
      by (simp add: total_ms_Cons)
    with rest0 1(2) nf have "?n < 2 ^ 53" by linarith
    with dig have pi: "parseInt d = Finite ?n" by (rule parseInt_exact)
    from b rest0 have "ms + ?n * factor_ms t < 2 ^ 53" by linarith
    with t n0 1(2) have
      sw: "switch_unit (toLowerCase u) (Finite ?n) (Finite ms) = Finite (ms + ?n * factor_ms t)"
      by (rule switch_unit_exact)
    from ex have "length rest < length input" by (rule regex_exec_length)
    moreover from 1(2) n0 f have "0 \<le> ms + ?n * factor_ms t" by simp
    ultimately have "parseDuration_loop rest (Finite (ms + ?n * factor_ms t)) =
        Finite (ms + ?n * factor_ms t + total_ms (duration_spec rest))"
      using 1(1) b by blast
    with ex pi sw spec show ?thesis
      by (simp add: parseDuration_loop.simps[of input] total_ms_Cons)
  qed
qed

subsection \<open>Every match adds its quantity times the factor of its unit\<close>


lemmas number_eval =
  to_number_def round_to_double_def bit_length.simps Let_def

lemmas parseDuration_eval =
  parseDuration_def parseDuration_loop.simps match_here_def utf16_def unit_alternatives_def
  is_digit_def is_space_def canonicalize_def toLowerCase_def parseInt_def switch_unit_def
  number_eval

lemmas duration_spec_eval =
  duration_spec.simps decimal_digit_def white_space_def lower_case_def utf16_def
  decimal_value_def total_ms_def second_ms_def day_ms_def











subsection \<open>Concatenation of well-formed duration strings\<close>

definition letters :: "js_string \<Rightarrow> bool" where
  "letters p \<longleftrightarrow> list_all (\<lambda>c. 65 \<le> canonicalize c \<and> canonicalize c \<le> 90) p"

definition digit_start :: "js_string \<Rightarrow> bool" where
  "digit_start b \<longleftrightarrow> (case b of [] \<Rightarrow> True | c # cs \<Rightarrow> is_digit c)"

definition closed_end :: "js_string \<Rightarrow> bool" where
  "closed_end s \<longleftrightarrow> s = [] \<or> (\<not> is_digit (last s) \<and> \<not> is_space (last s))"

lemma unit_alternatives_letters: "list_all letters unit_alternatives"
  by (simp add: unit_alternatives_def utf16_def letters_def canonicalize_def)

lemma match_literal_append:
  "letters p \<Longrightarrow> digit_start b \<Longrightarrow>
   match_literal p (s @ b) = map_option (\<lambda>r. r @ b) (match_literal p s)"
proof (induction p s rule: match_literal.induct)
  case (1 s)
  then show ?case by simp
next
  case (2 p ps)
  then show ?case
    by (cases b) (auto simp: letters_def digit_start_def is_digit_def canonicalize_def split: if_splits)
next
  case (3 p ps c cs)
  then show ?case by (simp add: letters_def)
qed

lemma match_alternation_append:
  "list_all letters ps \<Longrightarrow> digit_start b \<Longrightarrow>
   match_alternation ps (s @ b) = map_option (\<lambda>(u, r). (u, r @ b)) (match_alternation ps s)"
proof (induction ps)
  case Nil
  then show ?case by simp
next
  case (Cons p ps)
  then have l: "letters p" and ls: "list_all letters ps" by simp_all
  show ?case
  proof (cases "match_literal p s")
    case None
    then show ?thesis
      using Cons.IH[OF ls Cons.prems(2)] by (simp add: match_literal_append[OF l Cons.prems(2)])
  next
    case (Some r)
    then have "length p \<le> length s" by (auto dest: match_literal_length)
    then show ?thesis
      using Some by (simp add: match_literal_append[OF l Cons.prems(2)])
  qed
qed

lemma try_spaces_append:
  "j \<le> length s \<Longrightarrow> digit_start b \<Longrightarrow>
   try_spaces j (s @ b) = map_option (\<lambda>(u, r). (u, r @ b)) (try_spaces j s)"
proof (induction j)
  case 0
  then show ?case
    by (simp add: match_alternation_append[OF unit_alternatives_letters])
next
  case (Suc j)
  then show ?case
    by (cases "match_alternation unit_alternatives (drop (Suc j) s)")
       (simp_all add: match_alternation_append[OF unit_alternatives_letters])
qed

lemma takeWhile_space_append:
  "closed_end s \<Longrightarrow> digit_start b \<Longrightarrow>
   length (takeWhile is_space (s @ b)) = length (takeWhile is_space s)"
proof (cases "s = []")
  case True
  assume "digit_start b"
  then show ?thesis using True
    by (cases b) (auto simp: digit_start_def is_digit_def is_space_def)
next
  case False
  assume "closed_end s"
  with False have "last s \<in> set s" "\<not> is_space (last s)" by (auto simp: closed_end_def)
  then show ?thesis by (simp add: takeWhile_append1[of "last s"])
qed

lemma closed_end_drop: "closed_end s \<Longrightarrow> closed_end (drop n s)"
  by (auto simp: closed_end_def)

lemma try_digits_append:
  "closed_end s \<Longrightarrow> digit_start b \<Longrightarrow> k \<le> length s \<Longrightarrow>
   try_digits k (s @ b) = map_option (\<lambda>(d, u, r). (d, u, r @ b)) (try_digits k s)"
proof (induction k)
  case 0
  then show ?case by simp
next
  case (Suc k)
  let ?t = "drop (Suc k) s"
  have c: "closed_end ?t" using Suc.prems(1) by (rule closed_end_drop)
  have n: "length (takeWhile is_space (?t @ b)) = length (takeWhile is_space ?t)"
    using c Suc.prems(2) by (rule takeWhile_space_append)
  have le: "length (takeWhile is_space ?t) \<le> length ?t"
    by (rule length_takeWhile_le)
  have ts: "try_spaces (length (takeWhile is_space ?t)) (?t @ b) =
        map_option (\<lambda>(u, r). (u, r @ b)) (try_spaces (length (takeWhile is_space ?t)) ?t)"
    using le Suc.prems(2) by (rule try_spaces_append)
  have d: "drop (Suc k) (s @ b) = ?t @ b" using Suc.prems(3) by simp
  have ih: "try_digits k (s @ b) = map_option (\<lambda>(d, u, r). (d, u, r @ b)) (try_digits k s)"
    using Suc by simp
  show ?case
    using Suc.prems(3)
    by (cases "try_spaces (length (takeWhile is_space ?t)) ?t")
       (auto simp: d n ts ih)
qed

lemma match_here_append:
  assumes "closed_end s" "digit_start b" "s \<noteq> []"
  shows "match_here (s @ b) = map_option (\<lambda>(d, u, r). (d, u, r @ b)) (match_here s)"
proof -
  from assms have "last s \<in> set s" "\<not> is_digit (last s)" by (auto simp: closed_end_def)
  then have "takeWhile is_digit (s @ b) = takeWhile is_digit s"
    by (simp add: takeWhile_append1[of "last s"])
  moreover have "length (takeWhile is_digit s) \<le> length s" by (rule length_takeWhile_le)
  ultimately show ?thesis
    using assms by (simp add: match_here_def try_digits_append)
qed

lemma regex_exec_append:
  "closed_end s \<Longrightarrow> digit_start b \<Longrightarrow>
   regex_exec (s @ b) =
     (case regex_exec s of None \<Rightarrow> regex_exec b | Some (d, u, r) \<Rightarrow> Some (d, u, r @ b))"
proof (induction s)
  case Nil
  then show ?case by simp
next
  case (Cons c cs)
  have cs: "closed_end cs" using Cons.prems(1) by (auto simp: closed_end_def split: if_splits)
  have m: "match_here ((c # cs) @ b) = map_option (\<lambda>(d, u, r). (d, u, r @ b)) (match_here (c # cs))"
    using Cons.prems by (intro match_here_append) simp_all
  show ?case
    using Cons.IH[OF cs Cons.prems(2)] m
    by (cases "match_here (c # cs)") (auto split: option.splits)
qed


lemma match_literal_suffix: "match_literal p s = Some r \<Longrightarrow> r = drop (length p) s"
  by (induction p s rule: match_literal.induct) (auto split: if_splits)

lemma match_alternation_suffix: "match_alternation ps s = Some (u, r) \<Longrightarrow> \<exists>n. r = drop n s"
  by (induction ps) (auto split: option.splits dest: match_literal_suffix)

lemma try_spaces_suffix: "try_spaces j s = Some (u, r) \<Longrightarrow> \<exists>n. r = drop n s"
proof (induction j)
  case 0
  then show ?case by (auto dest: match_alternation_suffix)
next
  case (Suc j)
  then show ?case
    by (auto split: option.splits dest!: match_alternation_suffix)
qed

lemma try_digits_suffix: "try_digits k s = Some (d, u, r) \<Longrightarrow> \<exists>n. r = drop n s"
proof (induction k)
  case 0
  then show ?case by simp
next
  case (Suc k)
  then show ?case
    by (auto split: option.splits dest!: try_spaces_suffix)
qed

lemma regex_exec_suffix: "regex_exec s = Some (d, u, r) \<Longrightarrow> \<exists>n. r = drop n s"
proof (induction s)
  case Nil
  then show ?case by simp
next
  case (Cons c cs)
  show ?case
  proof (cases "match_here (c # cs)")
    case None
    with Cons obtain n where "r = drop n cs" by auto
    then have "r = drop (Suc n) (c # cs)" by simp
    then show ?thesis by blast
  next
    case (Some a)
    with Cons.prems show ?thesis
      by (auto simp: match_here_def dest: try_digits_suffix)
  qed
qed

lemma regex_exec_closed_end:
  "regex_exec s = Some (d, u, r) \<Longrightarrow> closed_end s \<Longrightarrow> closed_end r"
  by (auto dest!: regex_exec_suffix intro: closed_end_drop)

lemma duration_spec_append:
  "closed_end a \<Longrightarrow> digit_start b \<Longrightarrow>
   duration_spec (a @ b) = duration_spec a @ duration_spec b"
proof (induction a rule: length_induct)
  case (1 a)
  show ?case
  proof (cases "regex_exec a")
    case None
    have "regex_exec (a @ b) = regex_exec b"
      using None by (simp add: regex_exec_append[OF "1.prems"])
    then have "duration_spec (a @ b) = duration_spec b"
      by (simp add: duration_spec_regex_exec[of "a @ b"] duration_spec_regex_exec[of b])
    moreover have "duration_spec a = []"
      using None by (simp add: duration_spec_regex_exec[of a])
    ultimately show ?thesis by simp
  next
    case (Some x)
    obtain d u r where x: "x = (d, u, r)" by (cases x)
    from Some x have e: "regex_exec a = Some (d, u, r)" by simp
    have c: "closed_end r" using e "1.prems"(1) by (rule regex_exec_closed_end)
    have e': "regex_exec (a @ b) = Some (d, u, r @ b)"
      using e by (simp add: regex_exec_append[OF "1.prems"])
    from e have "length r < length a" by (rule regex_exec_length)
    with "1.IH" c "1.prems"(2) have "duration_spec (r @ b) = duration_spec r @ duration_spec b"
      by blast
    then show ?thesis
      by (simp add: duration_spec_regex_exec[of "a @ b"] duration_spec_regex_exec[of a] e e')
  qed
qed

lemma is_letter_closed: "is_letter c \<Longrightarrow> \<not> is_digit c \<and> \<not> is_space c"
  by (auto simp: is_letter_def is_digit_def is_space_def)

lemma well_formed_digit_start: "well_formed s \<Longrightarrow> digit_start s"
proof (cases s)
  case Nil
  then show ?thesis by (simp add: digit_start_def)
next
  case (Cons c cs)
  assume "well_formed s"
  then have "takeWhile is_digit s \<noteq> []"
    using Cons by (subst (asm) well_formed.simps) (auto split: if_splits)
  then show ?thesis using Cons by (auto simp: digit_start_def split: if_splits)
qed

lemma unit_alias_nonempty: "toLowerCase t \<in> set unit_alternatives \<Longrightarrow> t \<noteq> []"
  by (auto simp: unit_alternatives_def utf16_def toLowerCase_def)

lemma well_formed_closed_end: "well_formed s \<Longrightarrow> closed_end s"
proof (induction s rule: well_formed.induct)
  case (1 s)
  show ?case
  proof (cases "s = []")
    case True
    then show ?thesis by (simp add: closed_end_def)
  next
    case False
    let ?r = "dropWhile is_digit s"
    let ?t = "takeWhile is_letter ?r"
    let ?q = "dropWhile is_letter ?r"
    from "1.prems" False have d: "takeWhile is_digit s \<noteq> []"
      and t: "toLowerCase ?t \<in> set unit_alternatives" and w: "well_formed ?q"
      by (subst (asm) well_formed.simps, auto split: if_splits)+
    from t have tn: "?t \<noteq> []" by (rule unit_alias_nonempty)
    have q: "closed_end ?q" using "1.IH" False d t w by simp
    have s: "s = takeWhile is_digit s @ ?t @ ?q"
      by (metis takeWhile_dropWhile_id)
    show ?thesis
    proof (cases "?q = []")
      case True
      with s have "last s = last ?t" using tn by (metis append_Nil2 last_appendR)
      moreover have "last ?t \<in> set ?t" using tn by simp
      then have "is_letter (last ?t)" by (auto dest: set_takeWhileD)
      ultimately show ?thesis using False by (simp add: closed_end_def is_letter_closed)
    next
      case nonempty: False
      with s have l: "last s = last ?q" by (metis last_appendR append_is_Nil_conv)
      from q nonempty have "\<not> is_digit (last ?q) \<and> \<not> is_space (last ?q)"
        unfolding closed_end_def by blast
      with l show ?thesis unfolding closed_end_def by simp
    qed
  qed
qed

subsection \<open>The parse of a concatenation\<close>

lemmas well_formed_eval =
  well_formed.simps utf16_def is_digit_def is_letter_def toLowerCase_def unit_alternatives_def

text \<open>
  Claim C9, as amended. For well-formed duration strings \<open>a\<close> and \<open>b\<close> (each a
  concatenation of pairs of a decimal integer and a supported unit token) whose durations
  add up to less than \<open>2 ^ 53\<close> milliseconds, the parse of the concatenation is the sum
  of the parses, \<open>parse(a + b) = parse(a) + parse(b)\<close>, the sum being the addition of
  JavaScript numbers.
\<close>

theorem parseDuration_concat:
  assumes "well_formed a" and "well_formed b"
    and "total_ms (duration_spec a) + total_ms (duration_spec b) < 2 ^ 53"
  shows "parseDuration (a @ b) = js_add (parseDuration a) (parseDuration b)"
proof -
  have "closed_end a" using assms(1) by (rule well_formed_closed_end)
  moreover have "digit_start b" using assms(2) by (rule well_formed_digit_start)
  ultimately have "duration_spec (a @ b) = duration_spec a @ duration_spec b"
    by (rule duration_spec_append)
  then have ab: "total_ms (duration_spec (a @ b)) =
      total_ms (duration_spec a) + total_ms (duration_spec b)"
    by (simp add: total_ms_append)
  have a0: "0 \<le> total_ms (duration_spec a)" and b0: "0 \<le> total_ms (duration_spec b)"
    by (rule total_ms_nonneg)+
  from assms(3) b0 have "total_ms (duration_spec a) < 2 ^ 53" by linarith
  then have pa: "parseDuration a = Finite (total_ms (duration_spec a))"
    using parseDuration_loop_exact[of 0 a] by (simp add: parseDuration_def)
  from assms(3) a0 have "total_ms (duration_spec b) < 2 ^ 53" by linarith
  then have pb: "parseDuration b = Finite (total_ms (duration_spec b))"
    using parseDuration_loop_exact[of 0 b] by (simp add: parseDuration_def)
  from assms(3) ab have "parseDuration (a @ b) =
      Finite (total_ms (duration_spec a) + total_ms (duration_spec b))"
    using parseDuration_loop_exact[of 0 "a @ b"] by (simp add: parseDuration_def)
  moreover from assms(3) have "js_add (Finite (total_ms (duration_spec a)))
      (Finite (total_ms (duration_spec b))) =
      Finite (total_ms (duration_spec a) + total_ms (duration_spec b))"
    by (rule js_add_exact)
  ultimately show ?thesis by (simp only: pa pb)
qed

text \<open>
  The statement at \<open>"1h30min"\<close> and \<open>"2D"\<close>.
\<close>

theorem parseDuration_concat_witness:
  "well_formed (utf16 ''1h30min'') \<and> well_formed (utf16 ''2D'')
   \<and> total_ms (duration_spec (utf16 ''1h30min'')) + total_ms (duration_spec (utf16 ''2D''))
       < 2 ^ 53
   \<and> parseDuration (utf16 ''1h30min'' @ utf16 ''2D'') =
       js_add (parseDuration (utf16 ''1h30min'')) (parseDuration (utf16 ''2D''))
   \<and> parseDuration (utf16 ''1h30min'' @ utf16 ''2D'') = Finite (5400000 + 172800000)
   \<and> parseDuration (utf16 ''1h30min'') = Finite 5400000
   \<and> parseDuration (utf16 ''2D'') = Finite 172800000"
proof -
  have a: "well_formed (utf16 ''1h30min'')" by (simp add: well_formed_eval)
  have b: "well_formed (utf16 ''2D'')" by (simp add: well_formed_eval)
  have t: "total_ms (duration_spec (utf16 ''1h30min'')) + total_ms (duration_spec (utf16 ''2D''))
       < 2 ^ 53"
    by (simp add: duration_spec_eval)
  have pa: "parseDuration (utf16 ''1h30min'') = Finite 5400000" by (simp add: parseDuration_eval)
  have pb: "parseDuration (utf16 ''2D'') = Finite 172800000" by (simp add: parseDuration_eval)
  from parseDuration_concat[OF a b t] pa pb a b t show ?thesis by (simp add: number_eval)
qed

text \<open>
  Claim C9 as stated fails for large durations: \<open>"9223372036854775808s"\<close> and
  \<open>"300s300s"\<close> are well-formed; in the parse of the concatenation each 300000 is added
  to \<open>2 ^ 63 * 1000\<close> on its own and is rounded away, whereas the sum of the two parses
  adds 600000 at once and is rounded up to the next double.
\<close>

theorem parseDuration_concat_counterexample:
  "well_formed (utf16 ''9223372036854775808s'') \<and> well_formed (utf16 ''300s300s'')
   \<and> parseDuration (utf16 ''9223372036854775808s'' @ utf16 ''300s300s'') =
       Finite 9223372036854775808000
   \<and> js_add (parseDuration (utf16 ''9223372036854775808s'')) (parseDuration (utf16 ''300s300s''))
       = Finite 9223372036854776856576"
proof -
  have a: "well_formed (utf16 ''9223372036854775808s'')" by (simp add: well_formed_eval)
  have b: "well_formed (utf16 ''300s300s'')" by (simp add: well_formed_eval)
  have ab: "parseDuration (utf16 ''9223372036854775808s'' @ utf16 ''300s300s'') =
       Finite 9223372036854775808000"
    by (simp add: parseDuration_eval)
  have pa: "parseDuration (utf16 ''9223372036854775808s'') = Finite 9223372036854775808000"
    by (simp add: parseDuration_eval)
  have pb: "parseDuration (utf16 ''300s300s'') = Finite 600000"
    by (simp add: parseDuration_eval)
  have "js_add (Finite 9223372036854775808000) (Finite 600000) = Finite 9223372036854776856576"
    by (simp add: number_eval)
  with a b ab pa pb show ?thesis by simp
qed

section \<open>Properties of the middleware\<close>

subsection \<open>Observing a request\<close>

text \<open>The events a request added to the trace: those of \<open>s'\<close> after those of \<open>s\<close>.\<close>

definition events_since :: "'j state \<Rightarrow> 'j state \<Rightarrow> 'j event list" where
  "events_since s s' = drop (length (trace s)) (trace s')"

text \<open>Kinds of events.\<close>

fun is_RedisGet :: "'j event \<Rightarrow> bool" where
  "is_RedisGet (RedisGet c k) = True"
| "is_RedisGet e = False"


fun is_NewRedisClient :: "'j event \<Rightarrow> bool" where
  "is_NewRedisClient (NewRedisClient c u) = True"
| "is_NewRedisClient e = False"

fun is_Next :: "'j event \<Rightarrow> bool" where
  "is_Next Next = True"
| "is_Next e = False"

fun is_OriginalJson :: "'j event \<Rightarrow> bool" where
  "is_OriginalJson (OriginalJson v) = True"
| "is_OriginalJson e = False"

text \<open>A command sent to the store, and a command that writes to it.\<close>

fun is_store_io :: "'j event \<Rightarrow> bool" where
  "is_store_io (RedisGet c k) = True"
| "is_store_io (RedisSet c k v) = True"
| "is_store_io (RedisExpire c k n) = True"
| "is_store_io (RedisClose c) = True"
| "is_store_io e = False"

fun is_store_write :: "'j event \<Rightarrow> bool" where
  "is_store_write (RedisSet c k v) = True"
| "is_store_write (RedisExpire c k n) = True"
| "is_store_write e = False"

text \<open>The header that reports a hit.\<close>

fun is_hit_header :: "'j event \<Rightarrow> bool" where
  "is_hit_header (ResHeader n v) = (n = header_name \<and> v = utf16 ''HIT'')"
| "is_hit_header e = False"

text \<open>The lookup: a \<open>get\<close> and the creation of a client.\<close>

fun is_lookup_event :: "'j event \<Rightarrow> bool" where
  "is_lookup_event (RedisGet c k) = True"
| "is_lookup_event (NewRedisClient c u) = True"
| "is_lookup_event e = False"

text \<open>The clients created and the clients closed, in order.\<close>

fun created :: "'j event list \<Rightarrow> client_id list" where
  "created [] = []"
| "created (NewRedisClient c u # es) = c # created es"
| "created (e # es) = created es"

fun closed :: "'j event list \<Rightarrow> client_id list" where
  "closed [] = []"
| "closed (RedisClose c # es) = c # closed es"
| "closed (e # es) = closed es"

text \<open>
  The gate at the start of the middleware: the URL of the store when the global
  configuration is valid, caching is enabled and the path is not excluded (the request
  reaches the lookup), \<open>None\<close> when the request is passed through untouched.
\<close>

definition cache_url :: "'j env \<Rightarrow> breeze_config option \<Rightarrow> api_request \<Rightarrow> js_string option" where
  "cache_url env BreezeConfig req =
     (case breezeCacheConfigSchema_safeParse env BreezeConfig of
        None \<Rightarrow> None
      | Some (u, on, excluded, dbg) \<Rightarrow>
          if u = [] then None
          else if \<not> on then None
          else if (case excluded of None \<Rightarrow> False | Some ps \<Rightarrow> list_ex (startsWith (url req)) ps)
          then None
          else Some u)"

text \<open>The state of a request right before \<open>tryGetCache\<close> is called.\<close>

definition lookup_state :: "js_string \<Rightarrow> 'j state \<Rightarrow> 'j state" where
  "lookup_state u s = patch_res_json (acquire_client u s)"

text \<open>
  A response with the commit capability for the body it was made from, and a response
  that serves the cached value \<open>j\<close>.
\<close>

definition has_commit :: "'j response \<Rightarrow> bool" where
  "has_commit r = (case cache_fn r of CacheBody b \<Rightarrow> sent r = Some b | _ \<Rightarrow> False)"

definition hit_response :: "'j \<Rightarrow> 'j response \<Rightarrow> bool" where
  "hit_response j r \<longleftrightarrow> sent r = Some j \<and> cache_fn r = CacheNoop"

text \<open>
  A handler that calls \<open>.cache()\<close> only on values it has obtained (\<open>n\<close> of them
  so far).
\<close>

fun well_indexed :: "nat \<Rightarrow> 'j command list \<Rightarrow> bool" where
  "well_indexed n [] = True"
| "well_indexed n (CallJson b # cs) = well_indexed (Suc n) cs"
| "well_indexed n (CallCache i # cs) = (i < n \<and> well_indexed (Suc n) cs)"

subsection \<open>Invariants used in the proofs\<close>

text \<open>
  What the handler can add to the trace, given the client and the flag
  \<open>shouldCloseClient\<close> at the time it starts, and what a run of it leaves unchanged.
\<close>

fun handler_event :: "client_id \<Rightarrow> bool \<Rightarrow> js_string \<Rightarrow> 'j event \<Rightarrow> bool" where
  "handler_event c sc key (OriginalJson v) = True"
| "handler_event c sc key (RedisSet c' k v) = (c' = c \<and> k = key)"
| "handler_event c sc key (RedisExpire c' k n) = (c' = c \<and> k = key)"
| "handler_event c sc key (RedisClose c') = (sc \<and> c' = c)"
| "handler_event c sc key (ResHeader n v) = (n = header_name \<and> v = utf16 ''MISS'')"
| "handler_event c sc key e = False"

definition handler_steps :: "js_string \<Rightarrow> 'j state \<Rightarrow> 'j state \<Rightarrow> bool" where
  "handler_steps key s s' \<longleftrightarrow>
     take (length (trace s)) (trace s') = trace s
     \<and> list_all (handler_event (client s) (shouldCloseClient s) key) (events_since s s')
     \<and> client s' = client s \<and> shouldCloseClient s' = shouldCloseClient s
     \<and> sharedRedisClient s' = sharedRedisClient s \<and> sharedRedisUrl s' = sharedRedisUrl s
     \<and> cacheHit s' = cacheHit s \<and> cacheHitValue s' = cacheHitValue s
     \<and> res_json s' = res_json s \<and> (alreadyCached s \<longrightarrow> alreadyCached s')
     \<and> allocated s \<le> allocated s'"

text \<open>What \<open>tryGetCache\<close> can add to the trace, and what follows it before \<open>next()\<close>.\<close>

fun lookup_phase_event :: "'j event \<Rightarrow> bool" where
  "lookup_phase_event (RedisGet c k) = True"
| "lookup_phase_event (RedisClose c) = True"
| "lookup_phase_event (NewRedisClient c u) = True"
| "lookup_phase_event e = False"

fun post_event :: "'j event \<Rightarrow> bool" where
  "post_event (RedisClose c) = True"
| "post_event (ResHeader n v) = True"
| "post_event e = False"

text \<open>A client that is not to be closed by the request is the shared client of this URL.\<close>

definition client_ok :: "js_string \<Rightarrow> 'j state \<Rightarrow> bool" where
  "client_ok u s \<longleftrightarrow>
     (if shouldCloseClient s then True
      else sharedRedisClient s \<noteq> None \<and> sharedRedisUrl s = Some u)"

text \<open>
  The state in which the handler starts, for a request that reaches the lookup: either
  the client is the shared one and nothing was closed, or the client is one created for
  this request, as is every client closed so far, and the shared client is untouched.
\<close>

definition exclusive_ok :: "'j state \<Rightarrow> 'j event list \<Rightarrow> 'j state \<Rightarrow> bool" where
  "exclusive_ok s es sX \<longleftrightarrow>
     (if shouldCloseClient sX
      then client sX \<in> set (created es) \<and> allocated s \<le> client sX
           \<and> sharedRedisClient sX = sharedRedisClient s
           \<and> list_all (\<lambda>c. c \<in> set (created es) \<and> allocated s \<le> c) (closed es)
      else closed es = [])"

subsection \<open>A concrete store, configuration and request\<close>

text \<open>
  A store that gives the same answer to every \<open>get\<close> and accepts every \<open>set\<close>;
  JSON values are their own text. The global configuration names the store at
  \<open>redis://h\<close>; the request is for \<open>/a\<close>; no shared client exists in
  \<open>test_state\<close>, and client 0 is shared in \<open>test_state_shared\<close>.
\<close>

definition test_env :: "(redis_error + js_string option) \<Rightarrow> js_string env" where
  "test_env answer =
     \<lparr>redis_get = (\<lambda>t c k. answer), redis_set = (\<lambda>t c k v. None),
      JSON_parse = Some, JSON_stringify = (\<lambda>j. j), is_url = (\<lambda>u. True)\<rparr>"

definition test_config :: "breeze_config option" where
  "test_config =
     Some \<lparr>redisUrl = Some (utf16 ''redis://h''), enabled_global = None, excludedPaths = None,
           debug = None\<rparr>"

definition test_request :: api_request where
  "test_request = \<lparr>url = utf16 ''/a''\<rparr>"

definition test_state :: "js_string state" where
  "test_state =
     \<lparr>cacheInitialized = False, sharedRedisClient = None, sharedRedisUrl = None, client = 0,
      shouldCloseClient = False, alreadyCached = False, cacheHitValue = None, cacheHit = False,
      cached = None, retried = False, res_json = Original, trace = [], allocated = 0\<rparr>"

definition test_state_shared :: "js_string state" where
  "test_state_shared =
     test_state\<lparr>sharedRedisClient := Some 0, sharedRedisUrl := Some (utf16 ''redis://h''),
                 allocated := 1\<rparr>"

lemmas middleware_eval =
  cacheMiddleware_def breezeCacheConfigSchema_safeParse_def acquire_client_def
  patch_res_json_def tryGetCache_def client_get_def reconnect_def after_lookup_def
  call_next_def call_json_def patched_json_def call_cache_def cache_body_def
  set_and_expire_def close_per_request_client_def originalJson_def new_RedisClient_def
  emit_def durationSeconds_def startsWith_def Let_def

lemmas scenario_eval =
  middleware_eval cache_url_def lookup_state_def events_since_def
  cacheConfigSchema_safeParse_def test_env_def test_config_def test_request_def
  test_state_def test_state_shared_def utf16_def

subsection \<open>What a run of the handler can do\<close>

lemma handler_steps_refl: "handler_steps key s s"
  by (simp add: handler_steps_def events_since_def)

lemma handler_steps_trans:
  assumes "handler_steps key s s'" "handler_steps key s' s''"
  shows "handler_steps key s s''"
proof -
  from assms(1) obtain e1 where e1: "trace s' = trace s @ e1"
    "list_all (handler_event (client s) (shouldCloseClient s) key) e1"
    unfolding handler_steps_def events_since_def
    by (metis append_take_drop_id)
  from assms(2) obtain e2 where e2: "trace s'' = trace s' @ e2"
    "list_all (handler_event (client s') (shouldCloseClient s') key) e2"
    unfolding handler_steps_def events_since_def
    by (metis append_take_drop_id)
  from assms e1 e2 show ?thesis
    by (simp add: handler_steps_def events_since_def)
qed

lemma handler_steps_originalJson:
  "originalJson v s = (r, s') \<Longrightarrow> handler_steps key s s'"
  by (auto simp: originalJson_def handler_steps_def events_since_def emit_def)

lemma handler_steps_call_json:
  "call_json body s = (r, s') \<Longrightarrow> handler_steps key s s'"
  by (auto simp: call_json_def patched_json_def handler_steps_def events_since_def emit_def
      originalJson_def split: json_impl.splits if_splits prod.splits)

lemma handler_steps_cache_body:
  "cache_body conf env key body r s = (r', s') \<Longrightarrow> handler_steps key s s'"
  by (auto simp: cache_body_def set_and_expire_def close_per_request_client_def
      handler_steps_def events_since_def emit_def Let_def split: if_splits option.splits)

lemma handler_steps_call_cache:
  "call_cache conf env key r s = (r', s') \<Longrightarrow> handler_steps key s s'"
  by (cases "cache_fn r") (auto simp: call_cache_def handler_steps_refl dest: handler_steps_cache_body)

lemma run_handler_steps:
  "run_handler conf env key cs obtained s = (res, s') \<Longrightarrow> handler_steps key s s'"
proof (induction cs arbitrary: obtained s)
  case Nil
  then show ?case by (simp add: handler_steps_refl)
next
  case (Cons c cs)
  show ?case
  proof (cases c)
    case (CallJson body)
    obtain r s1 where j: "call_json body s = (r, s1)" by (cases "call_json body s")
    with Cons.prems CallJson have "run_handler conf env key cs (obtained @ [r]) s1 = (res, s')"
      by simp
    then have "handler_steps key s1 s'" by (rule Cons.IH)
    with handler_steps_call_json[OF j] show ?thesis by (rule handler_steps_trans)
  next
    case (CallCache i)
    show ?thesis
    proof (cases "i < length obtained \<and> cache_fn (obtained ! i) \<noteq> NoCache")
      case True
      obtain r s1 where j: "call_cache conf env key (obtained ! i) s = (r, s1)"
        by (cases "call_cache conf env key (obtained ! i) s")
      with Cons.prems CallCache True
      have "run_handler conf env key cs (obtained @ [r]) s1 = (res, s')"
        by simp
      then have "handler_steps key s1 s'" by (rule Cons.IH)
      with handler_steps_call_cache[OF j] show ?thesis by (rule handler_steps_trans)
    next
      case False
      with Cons.prems CallCache have "s' = s" by auto
      then show ?thesis by (simp add: handler_steps_refl)
    qed
  qed
qed

subsection \<open>The per-route configuration is read only for the TTL\<close>

lemma run_handler_durationSeconds:
  "durationSeconds conf = durationSeconds conf' \<Longrightarrow>
   run_handler conf env key cs obtained s = run_handler conf' env key cs obtained s"
proof (induction cs arbitrary: obtained s)
  case Nil
  then show ?case by simp
next
  case (Cons c cs)
  have cc: "call_cache conf env key r t = call_cache conf' env key r t" for r t
    using Cons.prems by (simp add: call_cache_def cache_body_def split: cache_property.splits)
  show ?case
  proof (cases c)
    case (CallJson body)
    then show ?thesis using Cons by (simp split: prod.splits)
  next
    case (CallCache i)
    then show ?thesis using Cons by (simp add: cc split: prod.splits)
  qed
qed

lemma cacheMiddleware_durationSeconds:
  "durationSeconds conf = durationSeconds conf' \<Longrightarrow>
   cacheMiddleware conf env BreezeConfig req handler s =
   cacheMiddleware conf' env BreezeConfig req handler s"
  unfolding cacheMiddleware_def call_next_def
  by (simp only: run_handler_durationSeconds[of conf conf'])

text \<open>
  Claim C10. The middleware never reads the per-route \<open>enabled\<close> flag: two per-route
  configurations that differ only in \<open>enabled\<close> give the same result, the same events
  (lookup, header, handler invocation, store writes) and the same final state, for every
  environment, global configuration, request, handler and initial state. In particular
  \<open>enabled: false\<close> does not disable caching for the route.
\<close>

theorem enabled_never_read:
  "cacheMiddleware (Some (c\<lparr>enabled := e\<rparr>)) env BreezeConfig req handler s =
   cacheMiddleware (Some c) env BreezeConfig req handler s"
  by (rule cacheMiddleware_durationSeconds) (simp add: durationSeconds_def)

text \<open>
  Claim C8 as stated fails: a per-route configuration without \<open>duration\<close>, which the
  schema would reject, is accepted by the middleware, and the commit writes the entry with
  a TTL of 60 seconds.
\<close>

theorem missing_duration_counterexample:
  "cacheConfigSchema_safeParse \<lparr>enabled = None, cacheKey = None, duration = None\<rparr> = None
   \<and> trace (snd (cacheMiddleware
       (Some \<lparr>enabled = None, cacheKey = None, duration = None\<rparr>)
       (test_env (Inr None)) test_config test_request
       [CallJson (utf16 ''2''), CallCache 0] test_state)) =
     [NewRedisClient 0 (utf16 ''redis://h''), PatchJson, RedisGet 0 (utf16 ''/a''), Next,
      OriginalJson (Some (utf16 ''2'')), RedisSet 0 (utf16 ''/a'') (utf16 ''2''),
      RedisExpire 0 (utf16 ''/a'') (Finite 60), RedisClose 0, ResHeader header_name (utf16 ''MISS'')]"
  by (simp add: scenario_eval)

text \<open>
  Claim C8, as amended. The declared schema \<open>cacheConfigSchema\<close> requires
  \<open>duration\<close> (validation of a configuration without it fails), but the middleware never
  validates the per-route configuration: a configuration without \<open>duration\<close> is accepted
  and behaves exactly as one with a duration of 60 seconds.
\<close>

theorem duration_default:
  "cacheConfigSchema_safeParse (c\<lparr>duration := None\<rparr>) = None
   \<and> cacheMiddleware (Some (c\<lparr>duration := None\<rparr>)) env BreezeConfig req handler s =
     cacheMiddleware (Some (c\<lparr>duration := Some (JNumber 60)\<rparr>)) env BreezeConfig req handler s"
proof -
  have "durationSeconds (Some (c\<lparr>duration := None\<rparr>)) =
        durationSeconds (Some (c\<lparr>duration := Some (JNumber 60)\<rparr>))"
    by (simp add: durationSeconds_def)
  then have "cacheMiddleware (Some (c\<lparr>duration := None\<rparr>)) env BreezeConfig req handler s =
     cacheMiddleware (Some (c\<lparr>duration := Some (JNumber 60)\<rparr>)) env BreezeConfig req handler s"
    by (rule cacheMiddleware_durationSeconds)
  then show ?thesis
    by (simp add: cacheConfigSchema_safeParse_def)
qed

subsection \<open>Commit is idempotent\<close>






subsection \<open>The paths of the middleware\<close>

lemma events_sinceI: "trace s' = trace s @ es \<Longrightarrow> events_since s s' = es"
  by (simp add: events_since_def)

lemma handler_steps_trace:
  assumes "handler_steps key s s'"
  obtains es where "trace s' = trace s @ es"
    and "list_all (handler_event (client s) (shouldCloseClient s) key) es"
  using assms unfolding handler_steps_def events_since_def
  by (metis append_take_drop_id)

lemma handler_event_kinds:
  "list_all (handler_event c sc key) es \<Longrightarrow>
   filter is_RedisGet es = [] \<and> filter is_NewRedisClient es = [] \<and> filter is_Next es = []"
proof (induction es)
  case Nil
  then show ?case by simp
next
  case (Cons e es)
  then show ?case by (cases e) auto
qed

lemma cacheMiddleware_active:
  assumes "cache_url env BreezeConfig req = Some u"
  shows "cacheMiddleware conf env BreezeConfig req handler s =
     (case tryGetCache env u (url req) (lookup_state u s) of
        (cacheOk, s3) \<Rightarrow>
          if \<not> cacheOk
          then call_next conf env (url req) handler (close_per_request_client s3)
          else call_next conf env (url req) handler (after_lookup env s3))"
  using assms
  by (auto simp: cache_url_def cacheMiddleware_def lookup_state_def Let_def
      split: option.splits if_splits prod.splits)

lemma cacheMiddleware_inactive:
  assumes "cache_url env BreezeConfig req = None"
  shows "\<exists>s'. cacheMiddleware conf env BreezeConfig req handler s =
           call_next conf env (url req) handler s' \<and> trace s' = trace s
           \<and> res_json s' = res_json s \<and> sharedRedisClient s' = sharedRedisClient s
           \<and> client s' = client s \<and> shouldCloseClient s' = shouldCloseClient s
           \<and> allocated s' = allocated s"
  using assms
  by (auto simp: cache_url_def cacheMiddleware_def split: option.splits if_splits prod.splits)

text \<open>The state before the lookup.\<close>

lemma lookup_state_shared:
  assumes "sharedRedisClient s = Some c" "sharedRedisUrl s = Some u"
  shows "trace (lookup_state u s) = trace s @ [PatchJson]"
    "client (lookup_state u s) = c" "\<not> shouldCloseClient (lookup_state u s)"
    "sharedRedisClient (lookup_state u s) = Some c" "sharedRedisUrl (lookup_state u s) = Some u"
    "allocated (lookup_state u s) = allocated s"
  using assms by (simp_all add: lookup_state_def patch_res_json_def acquire_client_def emit_def)

lemma lookup_state_exclusive:
  assumes "\<not> (sharedRedisClient s \<noteq> None \<and> sharedRedisUrl s = Some u)"
  shows "trace (lookup_state u s) = trace s @ [NewRedisClient (allocated s) u, PatchJson]"
    "client (lookup_state u s) = allocated s" "shouldCloseClient (lookup_state u s)"
    "sharedRedisClient (lookup_state u s) = sharedRedisClient s"
    "sharedRedisUrl (lookup_state u s) = sharedRedisUrl s"
    "allocated (lookup_state u s) = Suc (allocated s)"
  using assms
  by (auto simp: lookup_state_def patch_res_json_def acquire_client_def emit_def
      new_RedisClient_def split: option.splits)

lemma lookup_state_flags:
  "\<not> retried (lookup_state u s)" "\<not> cacheHit (lookup_state u s)"
  "\<not> alreadyCached (lookup_state u s)" "res_json (lookup_state u s) = Patched"
  "cached (lookup_state u s) = None" "cacheHitValue (lookup_state u s) = None"
  by (simp_all add: lookup_state_def patch_res_json_def emit_def)

lemma handler_event_kinds2:
  "list_all (handler_event c sc key) es \<Longrightarrow>
   filter is_lookup_event es = [] \<and> filter is_hit_header es = []"
proof (induction es)
  case Nil
  then show ?case by simp
next
  case (Cons e es)
  then show ?case by (cases e) (auto simp: utf16_def)
qed

lemma call_next_trace:
  obtains es where
    "trace (snd (call_next conf env key handler s)) = trace s @ Next # es"
    "list_all (handler_event (client s) (shouldCloseClient s) key) es"
    "cacheHit (snd (call_next conf env key handler s)) = cacheHit s"
    "sharedRedisClient (snd (call_next conf env key handler s)) = sharedRedisClient s"
proof -
  obtain res s' where r: "run_handler conf env key handler [] (emit Next s) = (res, s')"
    by (cases "run_handler conf env key handler [] (emit Next s)")
  from run_handler_steps[OF r] have h: "handler_steps key (emit Next s) s'" .
  then obtain es where "trace s' = trace (emit Next s) @ es"
    "list_all (handler_event (client (emit Next s)) (shouldCloseClient (emit Next s)) key) es"
    by (rule handler_steps_trace)
  moreover from h have "cacheHit s' = cacheHit s" "sharedRedisClient s' = sharedRedisClient s"
    by (simp_all add: handler_steps_def emit_def)
  ultimately show ?thesis
    using r that[of es] by (simp add: call_next_def emit_def)
qed

lemma tryGetCache_other_error:
  assumes "redis_get env (trace s) (client s) key = Inl e"
    and "code e \<noteq> Some ERR_REDIS_CONNECTION_CLOSED"
  shows "tryGetCache env u key s = (False, emit (RedisGet (client s) key) s)"
  using assms by (simp add: tryGetCache_def client_get_def)

lemma tryGetCache_closed:
  assumes "redis_get env (trace s) (client s) key = Inl e"
    and "code e = Some ERR_REDIS_CONNECTION_CLOSED" and "\<not> retried s"
  shows "tryGetCache env u key s =
     (let s' = reconnect u ((emit (RedisGet (client s) key) s)\<lparr>retried := True\<rparr>)
      in case redis_get env (trace s') (client s') key of
           Inr v \<Rightarrow> (True, (emit (RedisGet (client s') key) s')\<lparr>cached := v\<rparr>)
         | Inl e2 \<Rightarrow> (False, emit (RedisGet (client s') key) s'))"
  using assms by (simp add: tryGetCache_def client_get_def emit_def Let_def split: sum.splits)

lemma reconnect_exclusive:
  assumes "shouldCloseClient s"
  shows "trace (reconnect u s) = trace s @ [RedisClose (client s), NewRedisClient (allocated s) u]"
    "client (reconnect u s) = allocated s" "shouldCloseClient (reconnect u s)"
    "sharedRedisClient (reconnect u s) = sharedRedisClient s"
    "cacheHit (reconnect u s) = cacheHit s" "allocated (reconnect u s) = Suc (allocated s)"
  using assms
  by (simp_all add: reconnect_def close_per_request_client_def new_RedisClient_def emit_def)

lemma reconnect_shared:
  assumes "\<not> shouldCloseClient s" "sharedRedisClient s = Some c" "sharedRedisUrl s = Some u"
  shows "trace (reconnect u s) = trace s @ [NewRedisClient (allocated s) u]"
    "client (reconnect u s) = allocated s" "\<not> shouldCloseClient (reconnect u s)"
    "sharedRedisClient (reconnect u s) = Some (allocated s)"
    "cacheHit (reconnect u s) = cacheHit s" "allocated (reconnect u s) = Suc (allocated s)"
  using assms
  by (simp_all add: reconnect_def close_per_request_client_def new_RedisClient_def emit_def)

subsection \<open>The lookup and its single retry\<close>

lemma post_event_kinds:
  "list_all post_event es \<Longrightarrow>
   filter is_lookup_event es = [] \<and> filter is_Next es = [] \<and> filter is_RedisGet es = []"
proof (induction es)
  case Nil
  then show ?case by simp
next
  case (Cons e es)
  then show ?case by (cases e) auto
qed

lemma close_per_request_client_trace:
  obtains es where "trace (close_per_request_client s) = trace s @ es" "list_all post_event es"
    "filter is_hit_header es = []"
    "cacheHit (close_per_request_client s) = cacheHit s"
proof (cases "shouldCloseClient s")
  case True
  then show ?thesis
    using that[of "[RedisClose (client s)]"] by (simp add: close_per_request_client_def emit_def)
next
  case False
  then show ?thesis using that[of "[]"] by (simp add: close_per_request_client_def)
qed

lemma after_lookup_trace:
  obtains es where "trace (after_lookup env s) = trace s @ es" "list_all post_event es"
proof (cases "\<exists>v j. cached s = Some v \<and> v \<noteq> [] \<and> JSON_parse env v = Some j")
  case True
  then obtain v j where "cached s = Some v" "v \<noteq> []" "JSON_parse env v = Some j" by blast
  then show ?thesis
    using that[of "ResHeader header_name (utf16 ''HIT'') #
        (if shouldCloseClient s then [RedisClose (client s)] else [])"]
    by (simp add: after_lookup_def close_per_request_client_def emit_def)
next
  case False
  then have "trace (after_lookup env s) = trace s"
    by (auto simp: after_lookup_def split: option.splits)
  then show ?thesis using that[of "[]"] by simp
qed

lemma lookup_state_client_ok: "client_ok u (lookup_state u s)"
proof (cases "sharedRedisClient s \<noteq> None \<and> sharedRedisUrl s = Some u")
  case True
  then obtain c where "sharedRedisClient s = Some c" "sharedRedisUrl s = Some u" by auto
  from lookup_state_shared[OF this] show ?thesis by (simp add: client_ok_def)
next
  case False
  from lookup_state_exclusive[OF this] show ?thesis by (simp add: client_ok_def)
qed

lemma reconnect_trace:
  assumes "client_ok u s"
  shows "trace (reconnect u s) =
      trace s @ (if shouldCloseClient s then [RedisClose (client s)] else [])
        @ [NewRedisClient (allocated s) u]"
    and "client (reconnect u s) = allocated s"
    and "cacheHit (reconnect u s) = cacheHit s"
proof -
  show "trace (reconnect u s) =
      trace s @ (if shouldCloseClient s then [RedisClose (client s)] else [])
        @ [NewRedisClient (allocated s) u]"
    using assms
    by (auto simp: client_ok_def reconnect_exclusive reconnect_shared split: if_splits)
  show "client (reconnect u s) = allocated s"
    using assms
    by (auto simp: client_ok_def reconnect_exclusive reconnect_shared split: if_splits)
  show "cacheHit (reconnect u s) = cacheHit s"
    using assms
    by (auto simp: client_ok_def reconnect_exclusive reconnect_shared split: if_splits)
qed

lemma tryGetCache_closed_trace:
  assumes first: "redis_get env (trace s) (client s) key = Inl e"
    and closed: "code e = Some ERR_REDIS_CONNECTION_CLOSED"
    and fresh: "\<not> retried s" and ok: "client_ok u s"
  defines "s' \<equiv> reconnect u ((emit (RedisGet (client s) key) s)\<lparr>retried := True\<rparr>)"
  shows "trace (snd (tryGetCache env u key s)) =
      trace s @ RedisGet (client s) key #
        (if shouldCloseClient s then [RedisClose (client s)] else [])
        @ [NewRedisClient (allocated s) u, RedisGet (allocated s) key]"
    and "fst (tryGetCache env u key s) \<longleftrightarrow> \<not> isl (redis_get env (trace s') (client s') key)"
    and "cacheHit (snd (tryGetCache env u key s)) = cacheHit s"
proof -
  let ?g = "(emit (RedisGet (client s) key) s)\<lparr>retried := True\<rparr>"
  have okg: "client_ok u ?g" using ok by (simp add: client_ok_def emit_def)
  have t: "trace s' = trace s @ RedisGet (client s) key #
        (if shouldCloseClient s then [RedisClose (client s)] else [])
        @ [NewRedisClient (allocated s) u]"
    and c: "client s' = allocated s" and h: "cacheHit s' = cacheHit s"
    unfolding s'_def using reconnect_trace[OF okg] by (simp_all add: emit_def)
  have eq: "tryGetCache env u key s =
     (case redis_get env (trace s') (client s') key of
           Inr v \<Rightarrow> (True, (emit (RedisGet (client s') key) s')\<lparr>cached := v\<rparr>)
         | Inl e2 \<Rightarrow> (False, emit (RedisGet (client s') key) s'))"
    unfolding s'_def using tryGetCache_closed[OF first closed fresh, of u] unfolding Let_def .
  show "trace (snd (tryGetCache env u key s)) =
      trace s @ RedisGet (client s) key #
        (if shouldCloseClient s then [RedisClose (client s)] else [])
        @ [NewRedisClient (allocated s) u, RedisGet (allocated s) key]"
    by (simp add: eq t c emit_def split: sum.splits)
  show "fst (tryGetCache env u key s) \<longleftrightarrow> \<not> isl (redis_get env (trace s') (client s') key)"
    by (simp add: eq split: sum.splits)
  show "cacheHit (snd (tryGetCache env u key s)) = cacheHit s"
    by (simp add: eq h emit_def split: sum.splits)
qed

lemma lookup_state_trace:
  obtains pre where "trace (lookup_state u s) = trace s @ pre @ [PatchJson]"
    "filter is_RedisGet pre = []" "filter is_Next pre = []" "filter is_hit_header pre = []"
proof (cases "sharedRedisClient s \<noteq> None \<and> sharedRedisUrl s = Some u")
  case True
  then obtain c where "sharedRedisClient s = Some c" "sharedRedisUrl s = Some u" by auto
  from lookup_state_shared(1)[OF this] show ?thesis using that[of "[]"] by simp
next
  case False
  from lookup_state_exclusive(1)[OF this] show ?thesis
    using that[of "[NewRedisClient (allocated s) u]"] by simp
qed

text \<open>
  Claim C4. Let the first \<open>get\<close> of the lookup fail. The handler is invoked exactly
  once. If the error code is "connection closed", the lookup consists of the first
  \<open>get\<close>, the creation of exactly one new client, and one second \<open>get\<close> on that
  client; if the second \<open>get\<close> fails too, there is no further attempt and the request
  passes through as a miss (no hit flag, no \<open>HIT\<close> header). With any other error code
  the lookup is the first \<open>get\<close> alone (no reconnect, no retry) and the request passes
  through as a miss. The middleware has no error result of its own: its result is the
  result of the handler.
\<close>

theorem lookup_retries_once:
  assumes active: "cache_url env BreezeConfig req = Some u"
    and first: "redis_get env (trace (lookup_state u s)) (client (lookup_state u s)) (url req) = Inl e"
  shows
   "let s1 = lookup_state u s;
        s2 = reconnect u ((emit (RedisGet (client s1) (url req)) s1)\<lparr>retried := True\<rparr>);
        final = snd (cacheMiddleware conf env BreezeConfig req handler s);
        new = events_since s final;
        lookup = filter is_lookup_event (dropWhile (\<lambda>x. \<not> is_RedisGet x) new)
    in length (filter is_Next new) = 1
       \<and> (if code e = Some ERR_REDIS_CONNECTION_CLOSED
          then lookup = [RedisGet (client s1) (url req), NewRedisClient (allocated s1) u,
                         RedisGet (allocated s1) (url req)]
               \<and> (if isl (redis_get env (trace s2) (client s2) (url req))
                  then \<not> cacheHit final \<and> filter is_hit_header new = []
                  else True)
          else lookup = [RedisGet (client s1) (url req)]
               \<and> \<not> cacheHit final \<and> filter is_hit_header new = [])"
proof -
  let ?s1 = "lookup_state u s"
  let ?k = "url req"
  let ?s2 = "reconnect u ((emit (RedisGet (client ?s1) ?k) ?s1)\<lparr>retried := True\<rparr>)"
  let ?final = "snd (cacheMiddleware conf env BreezeConfig req handler s)"
  obtain pre where pre: "trace ?s1 = trace s @ pre @ [PatchJson]"
    "filter is_RedisGet pre = []" "filter is_Next pre = []" "filter is_hit_header pre = []"
    by (rule lookup_state_trace)
  have dw: "dropWhile (\<lambda>x. \<not> is_RedisGet x) (pre @ PatchJson # RedisGet c ?k # rest) =
      RedisGet c ?k # rest" for c rest
  proof -
    have "\<forall>x\<in>set pre. \<not> is_RedisGet x" using pre(2) by (simp add: filter_empty_conv)
    then show ?thesis by (simp add: dropWhile_append2)
  qed
  obtain ok s3 where t: "tryGetCache env u ?k ?s1 = (ok, s3)"
    by (cases "tryGetCache env u ?k ?s1")
  have mid: "cacheMiddleware conf env BreezeConfig req handler s =
      (if \<not> ok then call_next conf env ?k handler (close_per_request_client s3)
       else call_next conf env ?k handler (after_lookup env s3))"
    using cacheMiddleware_active[OF active, of conf handler s] t by simp
  show ?thesis
  proof (cases "code e = Some ERR_REDIS_CONNECTION_CLOSED")
    case False
    from tryGetCache_other_error[OF first False, of u] t
    have ok: "\<not> ok" and s3: "s3 = emit (RedisGet (client ?s1) ?k) ?s1" by simp_all
    have tr3: "trace s3 = trace ?s1 @ [RedisGet (client ?s1) ?k]"
      and h3: "cacheHit s3 = cacheHit ?s1" by (simp_all add: s3 emit_def)
    obtain cl where cl: "trace (close_per_request_client s3) = trace s3 @ cl"
      "list_all post_event cl" "filter is_hit_header cl = []"
      "cacheHit (close_per_request_client s3) = cacheHit s3"
      by (rule close_per_request_client_trace)
    obtain es where es:
      "trace (snd (call_next conf env ?k handler (close_per_request_client s3))) =
         trace (close_per_request_client s3) @ Next # es"
      "list_all (handler_event (client (close_per_request_client s3))
         (shouldCloseClient (close_per_request_client s3)) ?k) es"
      "cacheHit (snd (call_next conf env ?k handler (close_per_request_client s3))) =
         cacheHit (close_per_request_client s3)"
      by (rule call_next_trace)
    have new: "events_since s ?final =
        pre @ PatchJson # RedisGet (client ?s1) ?k # cl @ Next # es"
      by (rule events_sinceI) (simp add: mid ok es(1) cl(1) tr3 pre(1))
    have hit: "\<not> cacheHit ?final"
      by (simp add: mid ok es(3) cl(4) h3 lookup_state_flags)
    from new hit False pre post_event_kinds[OF cl(2)] cl(3)
      handler_event_kinds[OF es(2)] handler_event_kinds2[OF es(2)]
    show ?thesis
      by (simp add: Let_def dw)
  next
    case True
    have tr: "trace s3 = trace ?s1 @ RedisGet (client ?s1) ?k #
        (if shouldCloseClient ?s1 then [RedisClose (client ?s1)] else [])
        @ [NewRedisClient (allocated ?s1) u, RedisGet (allocated ?s1) ?k]"
      and okiff: "ok \<longleftrightarrow> \<not> isl (redis_get env (trace ?s2) (client ?s2) ?k)"
      and h3: "cacheHit s3 = cacheHit ?s1"
      using tryGetCache_closed_trace[OF first True lookup_state_flags(1) lookup_state_client_ok]
        t by simp_all
    let ?mid = "(if shouldCloseClient ?s1 then [RedisClose (client ?s1)] else [])"
    have midk: "filter is_lookup_event ?mid = []" "filter is_Next ?mid = []"
      "filter is_hit_header ?mid = []" by simp_all
    show ?thesis
    proof (cases ok)
      case False
      obtain cl where cl: "trace (close_per_request_client s3) = trace s3 @ cl"
        "list_all post_event cl" "filter is_hit_header cl = []"
        "cacheHit (close_per_request_client s3) = cacheHit s3"
        by (rule close_per_request_client_trace)
      obtain es where es:
        "trace (snd (call_next conf env ?k handler (close_per_request_client s3))) =
           trace (close_per_request_client s3) @ Next # es"
        "list_all (handler_event (client (close_per_request_client s3))
           (shouldCloseClient (close_per_request_client s3)) ?k) es"
        "cacheHit (snd (call_next conf env ?k handler (close_per_request_client s3))) =
           cacheHit (close_per_request_client s3)"
        by (rule call_next_trace)
      have new: "events_since s ?final =
          pre @ PatchJson # RedisGet (client ?s1) ?k # ?mid @
            [NewRedisClient (allocated ?s1) u, RedisGet (allocated ?s1) ?k] @ cl @ Next # es"
        by (rule events_sinceI) (simp add: mid False es(1) cl(1) tr pre(1))
      have hit: "\<not> cacheHit ?final"
        by (simp add: mid False es(3) cl(4) h3 lookup_state_flags)
      from new hit True pre post_event_kinds[OF cl(2)] cl(3) midk
        handler_event_kinds[OF es(2)] handler_event_kinds2[OF es(2)]
      show ?thesis
        by (simp add: Let_def dw)
    next
      case ok_true: True
      obtain al where al: "trace (after_lookup env s3) = trace s3 @ al" "list_all post_event al"
        by (rule after_lookup_trace)
      obtain es where es:
        "trace (snd (call_next conf env ?k handler (after_lookup env s3))) =
           trace (after_lookup env s3) @ Next # es"
        "list_all (handler_event (client (after_lookup env s3))
           (shouldCloseClient (after_lookup env s3)) ?k) es"
        by (rule call_next_trace)
      have new: "events_since s ?final =
          pre @ PatchJson # RedisGet (client ?s1) ?k # ?mid @
            [NewRedisClient (allocated ?s1) u, RedisGet (allocated ?s1) ?k] @ al @ Next # es"
        by (rule events_sinceI) (simp add: mid ok_true es(1) al(1) tr pre(1))
      from ok_true okiff have second: "\<not> isl (redis_get env (trace ?s2) (client ?s2) ?k)"
        by simp
      from new True pre post_event_kinds[OF al(2)] midk second
        handler_event_kinds[OF es(2)] handler_event_kinds2[OF es(2)]
      show ?thesis
        by (simp add: Let_def dw)
    qed
  qed
qed

theorem lookup_retries_once_witness:
  "cache_url (test_env (Inl (RedisError (Some ERR_REDIS_CONNECTION_CLOSED)))) test_config
      test_request = Some (utf16 ''redis://h'')
   \<and> filter is_lookup_event (dropWhile (\<lambda>x. \<not> is_RedisGet x)
        (events_since test_state
          (snd (cacheMiddleware None (test_env (Inl (RedisError (Some ERR_REDIS_CONNECTION_CLOSED))))
             test_config test_request [CallJson (utf16 ''2'')] test_state)))) =
       [RedisGet 0 (utf16 ''/a''), NewRedisClient 1 (utf16 ''redis://h''), RedisGet 1 (utf16 ''/a'')]"
proof -
  let ?env = "test_env (Inl (RedisError (Some ERR_REDIS_CONNECTION_CLOSED))) :: js_string env"
  have a: "cache_url ?env test_config test_request = Some (utf16 ''redis://h'')"
    by (simp add: scenario_eval)
  have b: "redis_get ?env (trace (lookup_state (utf16 ''redis://h'') test_state))
      (client (lookup_state (utf16 ''redis://h'') test_state)) (url test_request) =
      Inl (RedisError (Some ERR_REDIS_CONNECTION_CLOSED))"
    by (simp add: test_env_def)
  have c: "client (lookup_state (utf16 ''redis://h'') test_state) = 0"
    "allocated (lookup_state (utf16 ''redis://h'') test_state) = 1"
    "url test_request = utf16 ''/a''"
    by (simp_all add: scenario_eval)
  from lookup_retries_once[OF a b, of None "[CallJson (utf16 ''2'')]"] a c
  show ?thesis by (simp add: Let_def)
qed

subsection \<open>Hit, miss and pass-through runs of the handler\<close>

text \<open>A run of the handler when the lookup was a hit.\<close>

lemma run_handler_hit:
  assumes "run_handler conf env key cs obtained s = (res, s')"
    and "cacheHit s" "cacheHitValue s = Some j" "res_json s = Patched" "alreadyCached s"
    and "list_all (hit_response j) obtained"
  shows "(\<exists>es. trace s' = trace s @ es \<and> list_all (\<lambda>e. e = OriginalJson (Some j)) es)
     \<and> (case res of Inr rs \<Rightarrow> list_all (hit_response j) rs | Inl err \<Rightarrow> True)"
  using assms
proof (induction cs arbitrary: obtained s)
  case Nil
  then show ?case by auto
next
  case (Cons c cs)
  show ?case
  proof (cases c)
    case (CallJson body)
    obtain r s1 where j: "call_json body s = (r, s1)" by (cases "call_json body s")
    with Cons.prems have r: "hit_response j r" and t: "trace s1 = trace s @ [OriginalJson (Some j)]"
      and inv: "cacheHit s1" "cacheHitValue s1 = Some j" "res_json s1 = Patched" "alreadyCached s1"
      by (auto simp: call_json_def patched_json_def originalJson_def emit_def hit_response_def)
    from Cons.prems(1) CallJson j
    have run: "run_handler conf env key cs (obtained @ [r]) s1 = (res, s')" by simp
    have "list_all (hit_response j) (obtained @ [r])" using Cons.prems(6) r by simp
    from Cons.IH[OF run inv this] t show ?thesis by auto
  next
    case (CallCache i)
    show ?thesis
    proof (cases "i < length obtained \<and> cache_fn (obtained ! i) \<noteq> NoCache")
      case True
      then have "hit_response j (obtained ! i)"
        using Cons.prems(6) by (simp add: list_all_length)
      then have cc: "call_cache conf env key (obtained ! i) s = (obtained ! i, s)"
        by (simp add: call_cache_def hit_response_def)
      from Cons.prems(1) CallCache True cc
      have run: "run_handler conf env key cs (obtained @ [obtained ! i]) s = (res, s')" by simp
      have "list_all (hit_response j) (obtained @ [obtained ! i])"
        using Cons.prems(6) \<open>hit_response j (obtained ! i)\<close> by simp
      from Cons.IH[OF run Cons.prems(2-5) this] show ?thesis .
    next
      case False
      with Cons.prems(1) CallCache show ?thesis by auto
    qed
  qed
qed

text \<open>A run of the handler with the patched \<open>res.json\<close> when the lookup was no hit.\<close>

lemma run_handler_miss:
  assumes "run_handler conf env key cs obtained s = (res, s')"
    and "\<not> cacheHit s" "res_json s = Patched" "list_all has_commit obtained"
  shows "case res of
           Inr rs \<Rightarrow> list_all has_commit rs \<and> length rs = length obtained + length cs
         | Inl err \<Rightarrow> \<not> well_indexed (length obtained) cs"
  using assms
proof (induction cs arbitrary: obtained s)
  case Nil
  then show ?case by auto
next
  case (Cons c cs)
  show ?case
  proof (cases c)
    case (CallJson body)
    obtain r s1 where j: "call_json body s = (r, s1)" by (cases "call_json body s")
    with Cons.prems have r: "has_commit r"
      by (auto simp: call_json_def patched_json_def originalJson_def emit_def has_commit_def)
    from handler_steps_call_json[OF j, of key] Cons.prems
    have inv: "\<not> cacheHit s1" "res_json s1 = Patched" by (simp_all add: handler_steps_def)
    from Cons.prems(1) CallJson j
    have run: "run_handler conf env key cs (obtained @ [r]) s1 = (res, s')" by simp
    have "list_all has_commit (obtained @ [r])" using Cons.prems(4) r by simp
    from Cons.IH[OF run inv this] CallJson show ?thesis by (auto split: sum.splits)
  next
    case (CallCache i)
    show ?thesis
    proof (cases "i < length obtained")
      case True
      then have hc: "has_commit (obtained ! i)"
        using Cons.prems(4) by (simp add: list_all_length)
      then have nc: "cache_fn (obtained ! i) \<noteq> NoCache" by (auto simp: has_commit_def)
      obtain r s1 where j: "call_cache conf env key (obtained ! i) s = (r, s1)"
        by (cases "call_cache conf env key (obtained ! i) s")
      have r: "r = obtained ! i"
        using j by (auto simp: call_cache_def cache_body_def Let_def
            split: cache_property.splits if_splits)
      from handler_steps_call_cache[OF j] Cons.prems
      have inv: "\<not> cacheHit s1" "res_json s1 = Patched" by (simp_all add: handler_steps_def)
      from Cons.prems(1) CallCache True nc j
      have run: "run_handler conf env key cs (obtained @ [r]) s1 = (res, s')" by simp
      have "list_all has_commit (obtained @ [r])" using Cons.prems(4) hc r by simp
      from Cons.IH[OF run inv this] CallCache True show ?thesis by (auto split: sum.splits)
    next
      case False
      with Cons.prems(1) CallCache show ?thesis by auto
    qed
  qed
qed

text \<open>A run of the handler with the response function of the framework.\<close>

lemma run_handler_original:
  assumes "run_handler conf env key cs obtained s = (res, s')"
    and "res_json s = Original" "list_all (\<lambda>r. cache_fn r = NoCache) obtained"
  shows "\<exists>es. trace s' = trace s @ es \<and> list_all is_OriginalJson es"
  using assms
proof (induction cs arbitrary: obtained s)
  case Nil
  then show ?case by auto
next
  case (Cons c cs)
  show ?case
  proof (cases c)
    case (CallJson body)
    obtain r s1 where j: "call_json body s = (r, s1)" by (cases "call_json body s")
    with Cons.prems have r: "cache_fn r = NoCache"
      and t: "trace s1 = trace s @ [OriginalJson (Some body)]" and inv: "res_json s1 = Original"
      by (auto simp: call_json_def originalJson_def emit_def)
    from Cons.prems(1) CallJson j
    have run: "run_handler conf env key cs (obtained @ [r]) s1 = (res, s')" by simp
    have "list_all (\<lambda>r. cache_fn r = NoCache) (obtained @ [r])" using Cons.prems(3) r by simp
    from Cons.IH[OF run inv this] t show ?thesis by auto
  next
    case (CallCache i)
    have "\<not> (i < length obtained \<and> cache_fn (obtained ! i) \<noteq> NoCache)"
      using Cons.prems(3) by (auto simp: list_all_length)
    with Cons.prems(1) CallCache show ?thesis by auto
  qed
qed

lemma reconnect_events:
  "\<exists>es. trace (reconnect u s) = trace s @ es \<and> list_all lookup_phase_event es"
  by (auto simp: reconnect_def close_per_request_client_def new_RedisClient_def emit_def Let_def)

lemma reconnect_fields:
  "res_json (reconnect u s) = res_json s" "cacheHit (reconnect u s) = cacheHit s"
  "alreadyCached (reconnect u s) = alreadyCached s"
  "cacheHitValue (reconnect u s) = cacheHitValue s"
  "shouldCloseClient (reconnect u s) = shouldCloseClient s"
  by (auto simp: reconnect_def close_per_request_client_def new_RedisClient_def emit_def Let_def)

lemma tryGetCache_events:
  assumes "tryGetCache env u key s = (ok, s3)"
  shows "\<exists>es. trace s3 = trace s @ RedisGet (client s) key # es \<and> list_all lookup_phase_event es"
    and "res_json s3 = res_json s" and "cacheHit s3 = cacheHit s"
    and "alreadyCached s3 = alreadyCached s" and "cacheHitValue s3 = cacheHitValue s"
    and "shouldCloseClient s3 = shouldCloseClient s"
proof -
  let ?g = "(emit (RedisGet (client s) key) s)\<lparr>retried := True\<rparr>"
  obtain es where es: "trace (reconnect u ?g) = trace ?g @ es" "list_all lookup_phase_event es"
    using reconnect_events by blast
  show "\<exists>es. trace s3 = trace s @ RedisGet (client s) key # es \<and> list_all lookup_phase_event es"
    using assms es
    by (auto simp: tryGetCache_def client_get_def emit_def split: sum.splits if_splits)
  show "res_json s3 = res_json s" "cacheHit s3 = cacheHit s"
    "alreadyCached s3 = alreadyCached s" "cacheHitValue s3 = cacheHitValue s"
    "shouldCloseClient s3 = shouldCloseClient s"
    using assms
    by (auto simp: tryGetCache_def client_get_def emit_def reconnect_fields
        split: sum.splits if_splits)
qed

lemma lookup_phase_event_kinds:
  "list_all lookup_phase_event es \<Longrightarrow>
   filter is_Next es = [] \<and> filter is_hit_header es = [] \<and> filter is_store_write es = []
   \<and> filter is_OriginalJson es = [] \<and> PatchJson \<notin> set es"
proof (induction es)
  case Nil
  then show ?case by simp
next
  case (Cons e es)
  then show ?case by (cases e) auto
qed

subsection \<open>The cache key\<close>

lemma cacheKey_never_read:
  "cacheMiddleware (Some (c\<lparr>cacheKey := k\<rparr>)) env BreezeConfig req handler s =
   cacheMiddleware (Some c) env BreezeConfig req handler s"
  by (rule cacheMiddleware_durationSeconds) (simp add: durationSeconds_def)

text \<open>
  Claim C2 on a concrete request: the per-route configuration has the custom key
  \<open>"k"\<close>, the request URL is \<open>"/a"\<close>, the store has no entry, and the handler calls
  \<open>res.json(2).cache()\<close>. The lookup and the write use \<open>"/a"\<close>; the custom key is
  never used.
\<close>

theorem custom_cacheKey_ignored:
  "trace (snd (cacheMiddleware
       (Some \<lparr>enabled = Some True, cacheKey = Some (utf16 ''k''),
              duration = Some (JString (utf16 ''5s''))\<rparr>)
       (test_env (Inr None)) test_config test_request
       [CallJson (utf16 ''2''), CallCache 0] test_state)) =
     [NewRedisClient 0 (utf16 ''redis://h''), PatchJson, RedisGet 0 (utf16 ''/a''), Next,
      OriginalJson (Some (utf16 ''2'')), RedisSet 0 (utf16 ''/a'') (utf16 ''2''),
      RedisExpire 0 (utf16 ''/a'') (Finite 5), RedisClose 0, ResHeader header_name (utf16 ''MISS'')]"
  by (simp add: scenario_eval parseDuration_eval)

subsection \<open>A hit\<close>

lemma run_handler_hit_indexed:
  assumes "run_handler conf env key cs obtained s = (res, s')"
    and "res_json s = Patched" "list_all (\<lambda>r. cache_fn r \<noteq> NoCache) obtained"
  shows "case res of
           Inr rs \<Rightarrow> length rs = length obtained + length cs
         | Inl err \<Rightarrow> \<not> well_indexed (length obtained) cs"
  using assms
proof (induction cs arbitrary: obtained s)
  case Nil
  then show ?case by auto
next
  case (Cons c cs)
  show ?case
  proof (cases c)
    case (CallJson body)
    obtain r s1 where j: "call_json body s = (r, s1)" by (cases "call_json body s")
    with Cons.prems have r: "cache_fn r \<noteq> NoCache"
      by (auto simp: call_json_def patched_json_def originalJson_def emit_def split: if_splits)
    from handler_steps_call_json[OF j, of key] Cons.prems
    have inv: "res_json s1 = Patched" by (simp_all add: handler_steps_def)
    from Cons.prems(1) CallJson j
    have run: "run_handler conf env key cs (obtained @ [r]) s1 = (res, s')" by simp
    have "list_all (\<lambda>r. cache_fn r \<noteq> NoCache) (obtained @ [r])" using Cons.prems(3) r by simp
    from Cons.IH[OF run inv this] CallJson show ?thesis by (auto split: sum.splits)
  next
    case (CallCache i)
    show ?thesis
    proof (cases "i < length obtained")
      case True
      then have nc: "cache_fn (obtained ! i) \<noteq> NoCache"
        using Cons.prems(3) by (simp add: list_all_length)
      obtain r s1 where j: "call_cache conf env key (obtained ! i) s = (r, s1)"
        by (cases "call_cache conf env key (obtained ! i) s")
      have r: "r = obtained ! i"
        using j by (auto simp: call_cache_def cache_body_def Let_def
            split: cache_property.splits if_splits)
      from handler_steps_call_cache[OF j] Cons.prems
      have inv: "res_json s1 = Patched" by (simp_all add: handler_steps_def)
      from Cons.prems(1) CallCache True nc j
      have run: "run_handler conf env key cs (obtained @ [r]) s1 = (res, s')" by simp
      have "list_all (\<lambda>r. cache_fn r \<noteq> NoCache) (obtained @ [r])"
        using Cons.prems(3) nc r by simp
      from Cons.IH[OF run inv this] CallCache True show ?thesis by (auto split: sum.splits)
    next
      case False
      with Cons.prems(1) CallCache show ?thesis by auto
    qed
  qed
qed

text \<open>The state in which the handler starts after a hit.\<close>

lemma after_lookup_hit:
  assumes "cached s = Some v" "v \<noteq> []" "JSON_parse env v = Some j"
  shows "trace (after_lookup env s) =
      trace s @ ResHeader header_name (utf16 ''HIT'') #
        (if shouldCloseClient s then [RedisClose (client s)] else [])"
    and "cacheHit (after_lookup env s)" and "alreadyCached (after_lookup env s)"
    and "cacheHitValue (after_lookup env s) = Some j"
    and "res_json (after_lookup env s) = res_json s"
  using assms by (simp_all add: after_lookup_def close_per_request_client_def emit_def Let_def)

text \<open>
  Claim C1 as stated fails: the store holds \<open>"1"\<close> for the key, the lookup succeeds,
  the header is set to \<open>HIT\<close>, and then the downstream handler is invoked.
\<close>

theorem hit_calls_next_counterexample:
  "cached (snd (cacheMiddleware None (test_env (Inr (Some (utf16 ''1'')))) test_config
       test_request [] test_state)) = Some (utf16 ''1'')
   \<and> trace (snd (cacheMiddleware None (test_env (Inr (Some (utf16 ''1'')))) test_config
       test_request [] test_state)) =
      [NewRedisClient 0 (utf16 ''redis://h''), PatchJson, RedisGet 0 (utf16 ''/a''),
       ResHeader header_name (utf16 ''HIT''), RedisClose 0, Next]"
  by (simp add: scenario_eval)

text \<open>
  Claim C1, as amended. Let the lookup succeed with a non-empty value \<open>v\<close> for the key
  that deserializes to \<open>j\<close>. Then the header is set to \<open>HIT\<close> (once), nothing is
  written to the store, and the downstream handler is still invoked, exactly once; every
  \<open>res.json\<close> call the handler makes answers with \<open>j\<close>, whatever body the handler
  passes, and every value the handler obtains is a response carrying \<open>j\<close> whose
  \<open>cache()\<close> does nothing.
\<close>

theorem hit_serves_cached_value:
  assumes active: "cache_url env BreezeConfig req = Some u"
    and lookup: "tryGetCache env u (url req) (lookup_state u s) = (True, s3)"
    and found: "cached s3 = Some v" "v \<noteq> []" "JSON_parse env v = Some j"
  shows "case cacheMiddleware conf env BreezeConfig req handler s of
      (result, final) \<Rightarrow>
        length (filter is_hit_header (events_since s final)) = 1
        \<and> length (filter is_Next (events_since s final)) = 1
        \<and> filter is_store_write (events_since s final) = []
        \<and> list_all (\<lambda>e. e = OriginalJson (Some j))
            (filter is_OriginalJson (events_since s final))
        \<and> (case result of
             Inr rs \<Rightarrow> list_all (hit_response j) rs \<and> length rs = length handler
           | Inl err \<Rightarrow> \<not> well_indexed 0 handler)"
proof -
  let ?k = "url req"
  let ?s1 = "lookup_state u s"
  let ?s4 = "after_lookup env s3"
  obtain pre where pre: "trace ?s1 = trace s @ pre @ [PatchJson]"
    "filter is_RedisGet pre = []" "filter is_Next pre = []" "filter is_hit_header pre = []"
    by (rule lookup_state_trace)
  have pre_kinds: "filter is_store_write pre = []" "filter is_OriginalJson pre = []"
  proof -
    have "pre = [] \<or> pre = [NewRedisClient (allocated s) u]"
    proof (cases "sharedRedisClient s \<noteq> None \<and> sharedRedisUrl s = Some u")
      case True
      then obtain c where "sharedRedisClient s = Some c" "sharedRedisUrl s = Some u" by auto
      from lookup_state_shared(1)[OF this] pre(1) show ?thesis by simp
    next
      case False
      from lookup_state_exclusive(1)[OF this] pre(1) show ?thesis by simp
    qed
    then show "filter is_store_write pre = []" "filter is_OriginalJson pre = []" by auto
  qed
  obtain L where L: "trace s3 = trace ?s1 @ RedisGet (client ?s1) ?k # L"
    "list_all lookup_phase_event L"
    using tryGetCache_events(1)[OF lookup] by blast
  have f3: "res_json s3 = Patched"
    using tryGetCache_events(2)[OF lookup] by (simp add: lookup_state_flags)
  note hit = after_lookup_hit[OF found]
  have mid: "cacheMiddleware conf env BreezeConfig req handler s =
      call_next conf env ?k handler ?s4"
    using cacheMiddleware_active[OF active, of conf handler s] lookup by simp
  obtain result final where rf:
    "run_handler conf env ?k handler [] (emit Next ?s4) = (result, final)"
    by (cases "run_handler conf env ?k handler [] (emit Next ?s4)")
  have inv: "cacheHit (emit Next ?s4)" "cacheHitValue (emit Next ?s4) = Some j"
    "res_json (emit Next ?s4) = Patched" "alreadyCached (emit Next ?s4)"
    using hit f3 by (simp_all add: emit_def)
  from run_handler_hit[OF rf inv] obtain es where es:
    "trace final = trace (emit Next ?s4) @ es" "list_all (\<lambda>e. e = OriginalJson (Some j)) es"
    and res: "case result of Inr rs \<Rightarrow> list_all (hit_response j) rs | Inl err \<Rightarrow> True"
    by auto
  from run_handler_hit_indexed[OF rf inv(3)]
  have idx: "case result of Inr rs \<Rightarrow> length rs = length handler
      | Inl err \<Rightarrow> \<not> well_indexed 0 handler" by (simp split: sum.splits)
  let ?cl = "(if shouldCloseClient s3 then [RedisClose (client s3)] else [])"
  have new: "events_since s final =
      pre @ PatchJson # RedisGet (client ?s1) ?k # L @
        ResHeader header_name (utf16 ''HIT'') # ?cl @ Next # es"
    by (rule events_sinceI) (simp add: es(1) emit_def hit(1) L(1) pre(1))
  have es_kinds: "filter is_hit_header es = []" "filter is_Next es = []"
    "filter is_store_write es = []" "filter is_OriginalJson es = es"
    using es(2) by (induction es) auto
  have cl_kinds: "filter is_hit_header ?cl = []" "filter is_Next ?cl = []"
    "filter is_store_write ?cl = []" "filter is_OriginalJson ?cl = []" by simp_all
  from new pre pre_kinds lookup_phase_event_kinds[OF L(2)] es_kinds cl_kinds es(2) res idx
  show ?thesis
    by (simp add: mid call_next_def rf split: sum.splits)
qed

theorem hit_serves_cached_value_witness:
  "cache_url (test_env (Inr (Some (utf16 ''1'')))) test_config test_request =
      Some (utf16 ''redis://h'')
   \<and> fst (tryGetCache (test_env (Inr (Some (utf16 ''1'')))) (utf16 ''redis://h'') (url test_request)
        (lookup_state (utf16 ''redis://h'') test_state))
   \<and> (case cacheMiddleware None (test_env (Inr (Some (utf16 ''1'')))) test_config test_request
            [CallJson (utf16 ''2''), CallCache 0] test_state of
        (result, final) \<Rightarrow>
          result = Inr [\<lparr>rid = 1, sent = Some (utf16 ''1''), cache_fn = CacheNoop\<rparr>,
                        \<lparr>rid = 1, sent = Some (utf16 ''1''), cache_fn = CacheNoop\<rparr>]
          \<and> filter is_store_write (events_since test_state final) = []
          \<and> length (filter is_Next (events_since test_state final)) = 1)"
proof -
  let ?env = "test_env (Inr (Some (utf16 ''1''))) :: js_string env"
  let ?u = "utf16 ''redis://h''"
  let ?s3 = "snd (tryGetCache ?env ?u (url test_request) (lookup_state ?u test_state))"
  have a: "cache_url ?env test_config test_request = Some ?u"
    by (simp add: scenario_eval)
  have b: "tryGetCache ?env ?u (url test_request) (lookup_state ?u test_state) = (True, ?s3)"
    by (simp add: scenario_eval)
  have b': "fst (tryGetCache ?env ?u (url test_request) (lookup_state ?u test_state))"
    by (simp add: scenario_eval)
  have c: "cached ?s3 = Some (utf16 ''1'')" "utf16 ''1'' \<noteq> []"
    "JSON_parse ?env (utf16 ''1'') = Some (utf16 ''1'')"
    by (simp_all add: scenario_eval)
  have d: "fst (cacheMiddleware None ?env test_config test_request
            [CallJson (utf16 ''2''), CallCache 0] test_state) =
      Inr [\<lparr>rid = 1, sent = Some (utf16 ''1''), cache_fn = CacheNoop\<rparr>,
           \<lparr>rid = 1, sent = Some (utf16 ''1''), cache_fn = CacheNoop\<rparr>]"
    by (simp add: scenario_eval)
  from hit_serves_cached_value[OF a b c, where conf = None
      and handler = "[CallJson (utf16 ''2''), CallCache 0]"] a b' d
  show ?thesis by (auto split: prod.splits)
qed

text \<open>Every request that reaches the lookup, in one picture.\<close>

lemma active_run:
  assumes "cache_url env BreezeConfig req = Some u"
  obtains ok s3 sX L P H where
    "tryGetCache env u (url req) (lookup_state u s) = (ok, s3)"
    "sX = (if ok then after_lookup env s3 else close_per_request_client s3)"
    "cacheMiddleware conf env BreezeConfig req handler s =
       call_next conf env (url req) handler sX"
    "trace s3 = trace (lookup_state u s) @ RedisGet (client (lookup_state u s)) (url req) # L"
    "list_all lookup_phase_event L"
    "trace sX = trace s3 @ P" "list_all post_event P"
    "trace (snd (cacheMiddleware conf env BreezeConfig req handler s)) = trace sX @ Next # H"
    "list_all (handler_event (client sX) (shouldCloseClient sX) (url req)) H"
proof -
  let ?k = "url req"
  obtain ok s3 where t: "tryGetCache env u ?k (lookup_state u s) = (ok, s3)"
    by (cases "tryGetCache env u ?k (lookup_state u s)")
  define sX where "sX = (if ok then after_lookup env s3 else close_per_request_client s3)"
  have mid: "cacheMiddleware conf env BreezeConfig req handler s =
      call_next conf env ?k handler sX"
    using cacheMiddleware_active[OF assms, of conf handler s] t by (simp add: sX_def)
  obtain L where L: "trace s3 = trace (lookup_state u s) @
      RedisGet (client (lookup_state u s)) ?k # L" "list_all lookup_phase_event L"
    using tryGetCache_events(1)[OF t] by blast
  obtain P where P: "trace sX = trace s3 @ P" "list_all post_event P"
  proof (cases ok)
    case True
    obtain al where "trace (after_lookup env s3) = trace s3 @ al" "list_all post_event al"
      by (rule after_lookup_trace)
    with True that show ?thesis by (simp add: sX_def)
  next
    case False
    obtain cl where "trace (close_per_request_client s3) = trace s3 @ cl" "list_all post_event cl"
      by (rule close_per_request_client_trace)
    with False that show ?thesis by (simp add: sX_def)
  qed
  obtain H where H: "trace (snd (call_next conf env ?k handler sX)) = trace sX @ Next # H"
    "list_all (handler_event (client sX) (shouldCloseClient sX) ?k) H"
    by (rule call_next_trace)
  from that[OF t sX_def mid L P] H mid show ?thesis by simp
qed

subsection \<open>A failed lookup\<close>

lemma lookup_state_pre:
  obtains pre where "trace (lookup_state u s) = trace s @ pre @ [PatchJson]"
    "pre = [] \<or> pre = [NewRedisClient (allocated s) u]"
proof (cases "sharedRedisClient s \<noteq> None \<and> sharedRedisUrl s = Some u")
  case True
  then obtain c where "sharedRedisClient s = Some c" "sharedRedisUrl s = Some u" by auto
  from lookup_state_shared(1)[OF this] show ?thesis using that[of "[]"] by simp
next
  case False
  from lookup_state_exclusive(1)[OF this] show ?thesis
    using that[of "[NewRedisClient (allocated s) u]"] by simp
qed

lemma list_all_takeWhile: "list_all Q xs \<Longrightarrow> list_all Q (takeWhile P xs)"
  by (induction xs) auto

lemma OriginalJson_kinds:
  "list_all is_OriginalJson es \<Longrightarrow>
   filter is_Next es = [] \<and> list_all (\<lambda>e. \<not> is_store_io e) es"
proof (induction es)
  case Nil
  then show ?case by simp
next
  case (Cons e es)
  then show ?case by (cases e) auto
qed

lemma post_event_fields:
  "res_json (close_per_request_client s) = res_json s"
  "cacheHit (close_per_request_client s) = cacheHit s"
  "res_json (after_lookup env s) = res_json s"
  by (auto simp: close_per_request_client_def after_lookup_def emit_def Let_def
      split: option.splits)

text \<open>
  Claim C3. For a request that arrives with the response function of the framework:
  the handler is invoked exactly once, and no command is sent to the store before
  \<open>res.json\<close> is patched (only the client object may be created earlier). For a
  request that reaches the lookup, \<open>res.json\<close> is patched, and it is still the patched
  function when the request ends. When the lookup fails (after the retry, if there was one), the request
  passes through as a miss: no hit flag, no \<open>HIT\<close> header, and every value the
  handler obtains from \<open>res.json\<close> is a response with the commit capability for the
  body it was made from. The only error is the handler's own (a \<open>.cache()\<close> on a value
  it never obtained); the middleware adds none.
\<close>

theorem lookup_failure_passes_through:
  assumes orig: "res_json s = Original"
  shows "case cacheMiddleware conf env BreezeConfig req handler s of
      (result, final) \<Rightarrow>
        length (filter is_Next (events_since s final)) = 1
        \<and> list_all (\<lambda>e. \<not> is_store_io e)
            (takeWhile (\<lambda>e. e \<noteq> PatchJson) (events_since s final))
        \<and> (\<forall>u. cache_url env BreezeConfig req = Some u \<longrightarrow>
              PatchJson \<in> set (events_since s final) \<and> res_json final = Patched)
        \<and> (\<forall>u. cache_url env BreezeConfig req = Some u
                \<and> \<not> fst (tryGetCache env u (url req) (lookup_state u s)) \<longrightarrow>
              \<not> cacheHit final \<and> filter is_hit_header (events_since s final) = []
              \<and> (case result of
                   Inr rs \<Rightarrow> list_all has_commit rs \<and> length rs = length handler
                 | Inl err \<Rightarrow> \<not> well_indexed 0 handler))"
proof (cases "cache_url env BreezeConfig req")
  case None
  let ?k = "url req"
  from cacheMiddleware_inactive[OF None, of conf handler s] obtain s' where
    mid: "cacheMiddleware conf env BreezeConfig req handler s = call_next conf env ?k handler s'"
    and s': "trace s' = trace s" "res_json s' = res_json s"
    by blast
  obtain result final where rf:
    "run_handler conf env ?k handler [] (emit Next s') = (result, final)"
    by (cases "run_handler conf env ?k handler [] (emit Next s')")
  have "res_json (emit Next s') = Original" using s' orig by (simp add: emit_def)
  from run_handler_original[OF rf this] obtain es where
    es: "trace final = trace (emit Next s') @ es" "list_all is_OriginalJson es" by auto
  have new: "events_since s final = Next # es"
    by (rule events_sinceI) (simp add: es(1) emit_def s')
  have k: "filter is_Next es = []" "list_all (\<lambda>e. \<not> is_store_io e) es"
    using OriginalJson_kinds[OF es(2)] by simp_all
  have "list_all (\<lambda>e. \<not> is_store_io e) (Next # es)" using k(2) by simp
  then have "list_all (\<lambda>e. \<not> is_store_io e) (takeWhile (\<lambda>e. e \<noteq> PatchJson) (Next # es))"
    by (rule list_all_takeWhile)
  with new k(1) None show ?thesis
    by (simp add: mid call_next_def rf)
next
  case (Some u)
  let ?k = "url req"
  let ?s1 = "lookup_state u s"
  obtain ok s3 sX L P H where run:
    "tryGetCache env u ?k ?s1 = (ok, s3)"
    "sX = (if ok then after_lookup env s3 else close_per_request_client s3)"
    "cacheMiddleware conf env BreezeConfig req handler s = call_next conf env ?k handler sX"
    "trace s3 = trace ?s1 @ RedisGet (client ?s1) ?k # L"
    "list_all lookup_phase_event L"
    "trace sX = trace s3 @ P" "list_all post_event P"
    "trace (snd (cacheMiddleware conf env BreezeConfig req handler s)) = trace sX @ Next # H"
    "list_all (handler_event (client sX) (shouldCloseClient sX) ?k) H"
    by (rule active_run[OF Some])
  obtain pre where pre: "trace ?s1 = trace s @ pre @ [PatchJson]"
    "pre = [] \<or> pre = [NewRedisClient (allocated s) u]"
    by (rule lookup_state_pre)
  obtain result final where rf:
    "run_handler conf env ?k handler [] (emit Next sX) = (result, final)"
    by (cases "run_handler conf env ?k handler [] (emit Next sX)")
  have fin: "cacheMiddleware conf env BreezeConfig req handler s = (result, final)"
    using run(3) rf by (simp add: call_next_def)
  have new: "events_since s final =
      pre @ PatchJson # RedisGet (client ?s1) ?k # L @ P @ Next # H"
    by (rule events_sinceI) (use run(8) in \<open>simp add: fin run(4,6) pre(1)\<close>)
  have pk: "filter is_Next pre = []" "PatchJson \<notin> set pre"
    "list_all (\<lambda>e. \<not> is_store_io e) pre" "filter is_hit_header pre = []"
    using pre(2) by auto
  have tw: "takeWhile (\<lambda>e. e \<noteq> PatchJson) (events_since s final) = pre"
  proof -
    have "\<forall>x\<in>set pre. x \<noteq> PatchJson" using pk(2) by auto
    then show ?thesis by (simp add: new takeWhile_append2)
  qed
  have n1: "length (filter is_Next (events_since s final)) = 1"
    using pk(1) lookup_phase_event_kinds[OF run(5)] post_event_kinds[OF run(7)]
      handler_event_kinds[OF run(9)] by (simp add: new)
  have f3: "res_json s3 = Patched" "cacheHit s3 = cacheHit ?s1"
    using tryGetCache_events(2,3)[OF run(1)] by (simp_all add: lookup_state_flags)
  have fX: "res_json sX = Patched"
    using f3 by (simp add: run(2) post_event_fields)
  from run_handler_steps[OF rf]
  have ff: "res_json final = res_json sX" "cacheHit final = cacheHit sX"
    by (simp_all add: handler_steps_def emit_def)
  have failing: "\<not> cacheHit final \<and> filter is_hit_header (events_since s final) = []
      \<and> (case result of
           Inr rs \<Rightarrow> list_all has_commit rs \<and> length rs = length handler
         | Inl err \<Rightarrow> \<not> well_indexed 0 handler)" if nok: "\<not> ok"
  proof -
    have sX: "sX = close_per_request_client s3" using nok by (simp add: run(2))
    obtain cl where cl: "trace (close_per_request_client s3) = trace s3 @ cl"
      "filter is_hit_header cl = []"
      by (rule close_per_request_client_trace)
    have "P = cl" using run(6) cl(1) by (simp add: sX)
    then have ph: "filter is_hit_header P = []" using cl(2) by simp
    have hX: "\<not> cacheHit sX"
      using f3(2) by (simp add: sX post_event_fields lookup_state_flags)
    have inv: "\<not> cacheHit (emit Next sX)" "res_json (emit Next sX) = Patched"
      using hX fX by (simp_all add: emit_def)
    from run_handler_miss[OF rf inv]
    have "case result of
           Inr rs \<Rightarrow> list_all has_commit rs \<and> length rs = length handler
         | Inl err \<Rightarrow> \<not> well_indexed 0 handler"
      by (simp split: sum.splits)
    moreover have "filter is_hit_header (events_since s final) = []"
      using pk(4) lookup_phase_event_kinds[OF run(5)] ph handler_event_kinds2[OF run(9)]
      by (simp add: new)
    ultimately show ?thesis using hX ff by simp
  qed
  have "PatchJson \<in> set (events_since s final)" by (simp add: new)
  with n1 tw pk(3) fX ff(1) failing Some run(1) show ?thesis
    by (simp add: fin)
qed

theorem lookup_failure_passes_through_witness:
  "res_json test_state = Original
   \<and> cache_url (test_env (Inl (RedisError None))) test_config test_request =
       Some (utf16 ''redis://h'')
   \<and> \<not> fst (tryGetCache (test_env (Inl (RedisError None))) (utf16 ''redis://h'')
          (url test_request) (lookup_state (utf16 ''redis://h'') test_state))
   \<and> (case cacheMiddleware None (test_env (Inl (RedisError None))) test_config test_request
            [CallJson (utf16 ''2''), CallCache 0] test_state of
        (result, final) \<Rightarrow>
          result = Inr [\<lparr>rid = 1, sent = Some (utf16 ''2''), cache_fn = CacheBody (utf16 ''2'')\<rparr>,
                        \<lparr>rid = 1, sent = Some (utf16 ''2''), cache_fn = CacheBody (utf16 ''2'')\<rparr>]
          \<and> takeWhile (\<lambda>e. e \<noteq> PatchJson) (events_since test_state final) =
              [NewRedisClient 0 (utf16 ''redis://h'')]
          \<and> length (filter is_Next (events_since test_state final)) = 1
          \<and> \<not> cacheHit final)"
proof -
  let ?env = "test_env (Inl (RedisError None)) :: js_string env"
  let ?u = "utf16 ''redis://h''"
  have a: "res_json test_state = Original" by (simp add: test_state_def)
  have b: "cache_url ?env test_config test_request = Some ?u"
    by (simp add: scenario_eval)
  have c: "\<not> fst (tryGetCache ?env ?u (url test_request) (lookup_state ?u test_state))"
    by (simp add: scenario_eval)
  have d: "fst (cacheMiddleware None ?env test_config test_request
            [CallJson (utf16 ''2''), CallCache 0] test_state) =
      Inr [\<lparr>rid = 1, sent = Some (utf16 ''2''), cache_fn = CacheBody (utf16 ''2'')\<rparr>,
           \<lparr>rid = 1, sent = Some (utf16 ''2''), cache_fn = CacheBody (utf16 ''2'')\<rparr>]"
    by (simp add: scenario_eval)
  have e: "takeWhile (\<lambda>e. e \<noteq> PatchJson) (events_since test_state
        (snd (cacheMiddleware None ?env test_config test_request
            [CallJson (utf16 ''2''), CallCache 0] test_state))) =
      [NewRedisClient 0 ?u]"
    by (simp add: scenario_eval)
  from lookup_failure_passes_through[OF a, where conf = None and env = ?env
      and BreezeConfig = test_config and req = test_request
      and handler = "[CallJson (utf16 ''2''), CallCache 0]"] a b c d e
  show ?thesis by (auto split: prod.splits)
qed

subsection \<open>Only clients created for the request are closed\<close>

lemma created_append: "created (xs @ ys) = created xs @ created ys"
  by (induction xs rule: created.induct) simp_all

lemma closed_append: "closed (xs @ ys) = closed xs @ closed ys"
  by (induction xs rule: closed.induct) simp_all

lemma closed_handler_events:
  "list_all (handler_event c sc key) es \<Longrightarrow> set (closed es) \<subseteq> (if sc then {c} else {})"
proof (induction es)
  case Nil
  then show ?case by simp
next
  case (Cons e es)
  then show ?case by (cases e) (auto split: if_splits)
qed

lemma closed_OriginalJson: "list_all is_OriginalJson es \<Longrightarrow> closed es = []"
proof (induction es)
  case Nil
  then show ?case by simp
next
  case (Cons e es)
  then show ?case by (cases e) auto
qed

lemma before_handler_exclusive_ok:
  assumes "tryGetCache env u key (lookup_state u s) = (ok, s3)"
    and "sX = (if ok then after_lookup env s3 else close_per_request_client s3)"
  shows "\<exists>es. trace sX = trace s @ es \<and> exclusive_ok s es sX"
proof (cases "sharedRedisClient s \<noteq> None \<and> sharedRedisUrl s = Some u")
  case True
  then obtain c where sh: "sharedRedisClient s = Some c" "sharedRedisUrl s = Some u" by auto
  note l = lookup_state_shared[OF sh]
  from assms l show ?thesis
    by (auto simp: exclusive_ok_def tryGetCache_def client_get_def reconnect_def
        after_lookup_def close_per_request_client_def new_RedisClient_def emit_def Let_def
        split: sum.splits if_splits option.splits)
next
  case False
  note l = lookup_state_exclusive[OF False]
  from assms l show ?thesis
    by (auto simp: exclusive_ok_def tryGetCache_def client_get_def reconnect_def
        after_lookup_def close_per_request_client_def new_RedisClient_def emit_def Let_def
        split: sum.splits if_splits option.splits)
qed

text \<open>
  Claim C6. Let the request arrive with the response function of the framework, the
  shared client (if any) being an object that exists already. Then every client the
  request closes, in the lookup, after a hit, after a failed lookup or in a commit, was
  created during this request, and is the shared client neither before nor after the
  request.
\<close>

theorem shared_client_never_closed:
  assumes orig: "res_json s = Original"
    and heap: "case sharedRedisClient s of None \<Rightarrow> True | Some c \<Rightarrow> c < allocated s"
  shows "case cacheMiddleware conf env BreezeConfig req handler s of
      (result, final) \<Rightarrow>
        list_all (\<lambda>c. c \<in> set (created (events_since s final)) \<and> allocated s \<le> c
                      \<and> sharedRedisClient s \<noteq> Some c \<and> sharedRedisClient final \<noteq> Some c)
          (closed (events_since s final))"
proof (cases "cache_url env BreezeConfig req")
  case None
  let ?k = "url req"
  from cacheMiddleware_inactive[OF None, of conf handler s] obtain s' where
    mid: "cacheMiddleware conf env BreezeConfig req handler s = call_next conf env ?k handler s'"
    and s': "trace s' = trace s" "res_json s' = res_json s"
    by blast
  obtain result final where rf:
    "run_handler conf env ?k handler [] (emit Next s') = (result, final)"
    by (cases "run_handler conf env ?k handler [] (emit Next s')")
  have "res_json (emit Next s') = Original" using s' orig by (simp add: emit_def)
  from run_handler_original[OF rf this] obtain es where
    es: "trace final = trace (emit Next s') @ es" "list_all is_OriginalJson es" by auto
  have new: "events_since s final = Next # es"
    by (rule events_sinceI) (simp add: es(1) emit_def s')
  show ?thesis
    by (simp add: mid call_next_def rf new closed_OriginalJson[OF es(2)])
next
  case (Some u)
  let ?k = "url req"
  obtain ok s3 sX L P H where run:
    "tryGetCache env u ?k (lookup_state u s) = (ok, s3)"
    "sX = (if ok then after_lookup env s3 else close_per_request_client s3)"
    "cacheMiddleware conf env BreezeConfig req handler s = call_next conf env ?k handler sX"
    "trace s3 = trace (lookup_state u s) @ RedisGet (client (lookup_state u s)) ?k # L"
    "list_all lookup_phase_event L"
    "trace sX = trace s3 @ P" "list_all post_event P"
    "trace (snd (cacheMiddleware conf env BreezeConfig req handler s)) = trace sX @ Next # H"
    "list_all (handler_event (client sX) (shouldCloseClient sX) ?k) H"
    by (rule active_run[OF Some])
  obtain es0 where es0: "trace sX = trace s @ es0" "exclusive_ok s es0 sX"
    using before_handler_exclusive_ok[OF run(1,2)] by blast
  obtain result final where rf:
    "run_handler conf env ?k handler [] (emit Next sX) = (result, final)"
    by (cases "run_handler conf env ?k handler [] (emit Next sX)")
  have fin: "cacheMiddleware conf env BreezeConfig req handler s = (result, final)"
    using run(3) rf by (simp add: call_next_def)
  have new: "events_since s final = es0 @ Next # H"
    by (rule events_sinceI) (use run(8) in \<open>simp add: fin es0(1)\<close>)
  from run_handler_steps[OF rf]
  have shf: "sharedRedisClient final = sharedRedisClient sX"
    by (simp add: handler_steps_def emit_def)
  have cH: "set (closed H) \<subseteq> (if shouldCloseClient sX then {client sX} else {})"
    using run(9) by (rule closed_handler_events)
  have cl: "closed (events_since s final) = closed es0 @ closed H"
    and cr: "created (events_since s final) = created es0 @ created H"
    by (simp_all add: new closed_append created_append)
  show ?thesis
  proof (cases "shouldCloseClient sX")
    case False
    with es0(2) cH have "closed es0 = []" "closed H = []"
      by (simp_all add: exclusive_ok_def)
    then show ?thesis by (simp add: fin cl)
  next
    case True
    with es0(2) have x: "client sX \<in> set (created es0)" "allocated s \<le> client sX"
      "sharedRedisClient sX = sharedRedisClient s"
      "list_all (\<lambda>c. c \<in> set (created es0) \<and> allocated s \<le> c) (closed es0)"
      by (simp_all add: exclusive_ok_def)
    have ne: "sharedRedisClient s \<noteq> Some c" if "allocated s \<le> c" for c
      using heap that by (auto split: option.splits)
    have "\<forall>c\<in>set (closed es0 @ closed H).
        c \<in> set (created es0 @ created H) \<and> allocated s \<le> c
        \<and> sharedRedisClient s \<noteq> Some c \<and> sharedRedisClient final \<noteq> Some c"
    proof
      fix c assume "c \<in> set (closed es0 @ closed H)"
      then have "c \<in> set (created es0) \<and> allocated s \<le> c"
        using x(1,2,4) cH True by (auto simp: list_all_iff)
      then show "c \<in> set (created es0 @ created H) \<and> allocated s \<le> c
        \<and> sharedRedisClient s \<noteq> Some c \<and> sharedRedisClient final \<noteq> Some c"
        using ne[of c] shf x(3) by simp
    qed
    then show ?thesis by (simp add: fin cl cr list_all_iff)
  qed
qed

theorem shared_client_never_closed_witness:
  "res_json (test_state_shared\<lparr>sharedRedisUrl := Some (utf16 ''redis://other'')\<rparr>) = Original
   \<and> (case cacheMiddleware None (test_env (Inl (RedisError (Some ERR_REDIS_CONNECTION_CLOSED))))
            test_config test_request [CallJson (utf16 ''2''), CallCache 0]
            (test_state_shared\<lparr>sharedRedisUrl := Some (utf16 ''redis://other'')\<rparr>) of
        (result, final) \<Rightarrow>
          closed (trace final) = [1, 2, 2] \<and> created (trace final) = [1, 2]
          \<and> sharedRedisClient final = Some 0)"
proof -
  let ?env = "test_env (Inl (RedisError (Some ERR_REDIS_CONNECTION_CLOSED))) :: js_string env"
  let ?s = "test_state_shared\<lparr>sharedRedisUrl := Some (utf16 ''redis://other'')\<rparr>"
  have a: "res_json ?s = Original" by (simp add: test_state_shared_def test_state_def)
  have b: "case sharedRedisClient ?s of None \<Rightarrow> True | Some c \<Rightarrow> c < allocated ?s"
    by (simp add: test_state_shared_def test_state_def)
  have c: "trace (snd (cacheMiddleware None ?env test_config test_request
        [CallJson (utf16 ''2''), CallCache 0] ?s)) =
      [NewRedisClient 1 (utf16 ''redis://h''), PatchJson, RedisGet 1 (utf16 ''/a''),
       RedisClose 1, NewRedisClient 2 (utf16 ''redis://h''), RedisGet 2 (utf16 ''/a''),
       RedisClose 2, Next, OriginalJson (Some (utf16 ''2'')),
       RedisSet 2 (utf16 ''/a'') (utf16 ''2''), RedisExpire 2 (utf16 ''/a'') (Finite 60), RedisClose 2,
       ResHeader header_name (utf16 ''MISS'')]"
    "sharedRedisClient (snd (cacheMiddleware None ?env test_config test_request
        [CallJson (utf16 ''2''), CallCache 0] ?s)) = Some 0"
    by (simp_all add: scenario_eval ERR_REDIS_CONNECTION_CLOSED_def)
  from shared_client_never_closed[OF a b, where conf = None and env = ?env
      and BreezeConfig = test_config and req = test_request
      and handler = "[CallJson (utf16 ''2''), CallCache 0]"] a c
  show ?thesis by (auto split: prod.splits)
qed

end
